theory Spec2Isabelle
  imports Main
begin

section \<open>Sparse tensor storage: level types and tensor types\<close>

text \<open>
  The development follows \<^verbatim>\<open>SparseTensorCodegen.cpp\<close>. The file generates compiler
  IR; what is modelled here is the behaviour of the generated code on the buffers of one
  sparse tensor. Index arithmetic is modelled on \<^typ>\<open>nat\<close>: the sizes and offsets of a
  tensor stay far below the range of the index type, and the only subtraction that could
  wrap (\<^verbatim>\<open>plast = pstop - 1\<close>) is read only when \<^verbatim>\<open>pstart < pstop\<close>. Element values are
  modelled as natural numbers too: the engine stores and copies them and uses zero as
  the fill value, nothing more. An operation that indexes a buffer out of its bounds,
  fails an assertion or reaches \<^verbatim>\<open>llvm_unreachable\<close> returns \<^const>\<open>None\<close>.
\<close>

datatype LevelFormat = Dense | Compressed | CompressedWithHi | Singleton

record DimLevelType =
  levelFormat :: LevelFormat
  levelOrdered :: bool
  levelUnique :: bool

definition isDenseDLT :: "DimLevelType \<Rightarrow> bool" where
  "isDenseDLT dlt = (levelFormat dlt = Dense)"

definition isCompressedDLT :: "DimLevelType \<Rightarrow> bool" where
  "isCompressedDLT dlt = (levelFormat dlt = Compressed)"

definition isCompressedWithHiDLT :: "DimLevelType \<Rightarrow> bool" where
  "isCompressedWithHiDLT dlt = (levelFormat dlt = CompressedWithHi)"

definition isSingletonDLT :: "DimLevelType \<Rightarrow> bool" where
  "isSingletonDLT dlt = (levelFormat dlt = Singleton)"

text \<open>
  The type of a sparse tensor: its dimension shape (\<^const>\<open>None\<close> is a dynamic size),
  its level types, the dimension stored at each level, the bit widths and the element
  type. \<open>cooStart\<close> is the level from which the coordinates of all further levels share
  one array-of-structures buffer (the result of \<^verbatim>\<open>getCOOStart\<close>, which is declared
  outside this file and is taken as given; the level rank when no levels are merged).
\<close>

record SparseTensorType =
  dimShape :: "nat option list"
  lvlTypes :: "DimLevelType list"
  dimOrdering :: "nat list"
  cooStart :: nat
  posWidth :: nat
  crdWidth :: nat
  elementType :: nat
  isSlice :: bool
  hasEncoding :: bool

definition getLvlRank :: "SparseTensorType \<Rightarrow> nat" where
  "getLvlRank stt = length (lvlTypes stt)"

definition getDimRank :: "SparseTensorType \<Rightarrow> nat" where
  "getDimRank stt = length (dimShape stt)"

definition getLvlType :: "SparseTensorType \<Rightarrow> nat \<Rightarrow> DimLevelType" where
  "getLvlType stt l = lvlTypes stt ! l"

definition isDenseLvl :: "SparseTensorType \<Rightarrow> nat \<Rightarrow> bool" where
  "isDenseLvl stt l = isDenseDLT (getLvlType stt l)"

definition isCompressedLvl :: "SparseTensorType \<Rightarrow> nat \<Rightarrow> bool" where
  "isCompressedLvl stt l = isCompressedDLT (getLvlType stt l)"

definition isUniqueLvl :: "SparseTensorType \<Rightarrow> nat \<Rightarrow> bool" where
  "isUniqueLvl stt l = levelUnique (getLvlType stt l)"

definition isOrderedLvl :: "SparseTensorType \<Rightarrow> nat \<Rightarrow> bool" where
  "isOrderedLvl stt l = levelOrdered (getLvlType stt l)"

definition isAllDense :: "SparseTensorType \<Rightarrow> bool" where
  "isAllDense stt = list_all isDenseDLT (lvlTypes stt)"

definition getNumDynamicDims :: "SparseTensorType \<Rightarrow> nat" where
  "getNumDynamicDims stt = length (filter (\<lambda>sh. sh = None) (dimShape stt))"

definition toOrigDim :: "SparseTensorType \<Rightarrow> nat \<Rightarrow> nat" where
  "toOrigDim stt l = dimOrdering stt ! l"

definition toStoredDim :: "SparseTensorType \<Rightarrow> nat \<Rightarrow> nat" where
  "toStoredDim stt d = length (takeWhile (\<lambda>x. x \<noteq> d) (dimOrdering stt))"

section \<open>Buffers, specifier and descriptor\<close>

text \<open>
  A descriptor holds the fields of one storage instance: the buffers (a list as long as
  the capacity of the buffer) and the specifier, which records the size of every level
  and the occupied length of every buffer.
\<close>

datatype FieldId = PosMemRef nat | CrdMemRef nat | ValMemRef

record SparseTensorDescriptor =
  lvlSize :: "nat \<Rightarrow> nat"
  memSize :: "FieldId \<Rightarrow> nat"
  memRef :: "FieldId \<Rightarrow> nat list"

text \<open>The occupied part of a buffer.\<close>

definition occupied :: "SparseTensorDescriptor \<Rightarrow> FieldId \<Rightarrow> nat list" where
  "occupied desc f = take (memSize desc f) (memRef desc f)"

text \<open>
  Modelled from the spec: the storage layout (\<^verbatim>\<open>SparseTensorStorageLayout.h\<close>) is not in
  the source. The coordinates of a level from \<open>cooStart\<close> on live in the buffer of level
  \<open>cooStart\<close>, with a stride of the number of merged levels; every other level has a
  coordinate buffer of its own, with stride one.
\<close>

definition getCrdMemRefIndexAndStride :: "SparseTensorType \<Rightarrow> nat \<Rightarrow> FieldId \<times> nat" where
  "getCrdMemRefIndexAndStride stt lvl =
     (if cooStart stt \<le> lvl \<and> lvl < getLvlRank stt
      then (CrdMemRef (cooStart stt), getLvlRank stt - cooStart stt)
      else (CrdMemRef lvl, 1))"

fun getMemRefFieldIndex :: "SparseTensorType \<Rightarrow> FieldId \<Rightarrow> FieldId" where
  "getMemRefFieldIndex stt (CrdMemRef lvl) = fst (getCrdMemRefIndexAndStride stt lvl)"
| "getMemRefFieldIndex stt (PosMemRef lvl) = PosMemRef lvl"
| "getMemRefFieldIndex stt ValMemRef = ValMemRef"

text \<open>
  Modelled from the spec: the fields of a tensor type in layout order
  (\<^verbatim>\<open>foreachFieldAndTypeInSparseTensor\<close> is not in the source): a position and a
  coordinate buffer for each compressed level, a coordinate buffer for each singleton
  level, none for a dense level, up to and including level \<open>cooStart\<close>; then the values.
\<close>

definition fieldsOfLvl :: "SparseTensorType \<Rightarrow> nat \<Rightarrow> FieldId list" where
  "fieldsOfLvl stt l =
     (case levelFormat (getLvlType stt l) of
        Dense \<Rightarrow> []
      | Compressed \<Rightarrow> [PosMemRef l, CrdMemRef l]
      | CompressedWithHi \<Rightarrow> [PosMemRef l, CrdMemRef l]
      | Singleton \<Rightarrow> [CrdMemRef l])"

definition foreachFieldInSparseTensor :: "SparseTensorType \<Rightarrow> FieldId list" where
  "foreachFieldInSparseTensor stt =
     concat (map (fieldsOfLvl stt)
        [0 ..< (if cooStart stt < getLvlRank stt then cooStart stt + 1 else getLvlRank stt)])
     @ [ValMemRef]"

text \<open>
  Loads and stores (\<^verbatim>\<open>genLoad\<close>, \<^verbatim>\<open>genStore\<close>); an index outside the buffer is the
  failure \<^const>\<open>None\<close>. The buffer cells are modelled as natural numbers. In the
  generated code a position buffer has elements of \<open>posWidth\<close> bits and a coordinate
  buffer elements of \<open>crdWidth\<close> bits, and \<^verbatim>\<open>genStore\<close> casts the value to the element
  type before it stores it (\<^verbatim>\<open>genCast\<close>, which is declared outside this file). The
  cast is not part of the model: a store writes the value itself. A value that fits the
  element type is stored unchanged by the generated code too, so the model describes the
  generated code on such values; the properties of the stored positions and coordinates
  are stated under the hypothesis that the values fit (\<open>fitsWidth\<close> below).
\<close>

definition genLoad :: "nat list \<Rightarrow> nat \<Rightarrow> nat option" where
  "genLoad mem idx = (if idx < length mem then Some (mem ! idx) else None)"

definition genStore :: "nat \<Rightarrow> nat list \<Rightarrow> nat \<Rightarrow> nat list option" where
  "genStore val mem idx = (if idx < length mem then Some (mem[idx := val]) else None)"

text \<open>A store into a buffer of the descriptor.\<close>

definition storeField :: "SparseTensorDescriptor \<Rightarrow> FieldId \<Rightarrow> nat \<Rightarrow> nat
    \<Rightarrow> SparseTensorDescriptor option" where
  "storeField desc f idx val =
     map_option (\<lambda>mem. desc\<lparr>memRef := (memRef desc)(f := mem)\<rparr>)
       (genStore val (memRef desc f) idx)"

text \<open>
  Modelled from the spec: the append primitive (\<^verbatim>\<open>PushBackOp\<close>) is lowered outside this
  file. It writes \<open>n\<close> copies of the value from the occupied length on and returns the new
  occupied length; when the capacity does not suffice the buffer is first reallocated with
  geometric growth, which keeps its content. Fresh cells are modelled as zero, which is
  what they hold when buffer initialisation is enabled; otherwise their content is
  unspecified. \<^verbatim>\<open>createPushback\<close> casts the value to the element type of the buffer
  before it appends it; as for a store, the cast is not part of the model, which appends
  the value itself.
\<close>

definition push_back :: "nat \<Rightarrow> nat list \<Rightarrow> nat \<Rightarrow> nat \<Rightarrow> nat list \<times> nat" where
  "push_back curSize buffer val n =
     (let newSize = curSize + n;
          capacity = length buffer;
          newCapacity = (if newSize > capacity then max (2 * capacity) newSize else capacity);
          grown = buffer @ replicate (newCapacity - capacity) 0
      in (take curSize grown @ replicate n val @ drop newSize grown, newSize))"

definition createPushback :: "SparseTensorType \<Rightarrow> SparseTensorDescriptor \<Rightarrow> FieldId \<Rightarrow> nat
    \<Rightarrow> nat \<Rightarrow> SparseTensorDescriptor" where
  "createPushback stt desc kind val repeat =
     (let field = getMemRefFieldIndex stt kind;
          (outBuffer, newSize) = push_back (memSize desc field) (memRef desc field) val repeat
      in desc\<lparr>memRef := (memRef desc)(field := outBuffer),
              memSize := (memSize desc)(field := newSize)\<rparr>)"

definition sizeFromTensorAtDim :: "SparseTensorType \<Rightarrow> SparseTensorDescriptor \<Rightarrow> nat \<Rightarrow> nat" where
  "sizeFromTensorAtDim stt desc dim =
     (case dimShape stt ! dim of
        Some sz \<Rightarrow> sz
      | None \<Rightarrow> lvlSize desc (toStoredDim stt dim))"

definition sizeFromTensorAtLvl :: "SparseTensorType \<Rightarrow> SparseTensorDescriptor \<Rightarrow> nat \<Rightarrow> nat" where
  "sizeFromTensorAtLvl stt desc lvl = sizeFromTensorAtDim stt desc (toOrigDim stt lvl)"

section \<open>Allocation\<close>

text \<open>
  The loop of \<^verbatim>\<open>allocSchemeForRank\<close>: it compounds the sizes of the dense levels from
  \<open>l\<close> on and reserves that many zero positions at the first compressed level, nothing at
  a singleton level, and that many zero values when every level to the end is dense.
\<close>

function allocSchemeLoop :: "SparseTensorType \<Rightarrow> SparseTensorDescriptor \<Rightarrow> nat \<Rightarrow> nat
    \<Rightarrow> SparseTensorDescriptor option" where
  "allocSchemeLoop stt desc linear l =
     (if l < getLvlRank stt then
        (if isCompressedDLT (getLvlType stt l)
           then Some (createPushback stt desc (PosMemRef l) 0 linear)
         else if isSingletonDLT (getLvlType stt l)
           then Some desc
         else if isDenseDLT (getLvlType stt l)
           then allocSchemeLoop stt desc (linear * sizeFromTensorAtLvl stt desc l) (l + 1)
         else None)
      else Some (createPushback stt desc ValMemRef 0 linear))"
  by pat_completeness auto
termination
  by (relation "measure (\<lambda>(stt, desc, linear, l). getLvlRank stt - l)") auto

declare allocSchemeLoop.simps [simp del]

definition allocSchemeForRank :: "SparseTensorType \<Rightarrow> SparseTensorDescriptor \<Rightarrow> nat
    \<Rightarrow> SparseTensorDescriptor option" where
  "allocSchemeForRank stt desc startLvl = allocSchemeLoop stt desc 1 startLvl"

text \<open>The sizes of the dimensions: a dynamic size is the next of the supplied ones.\<close>

fun buildDimSizes :: "nat option list \<Rightarrow> nat list \<Rightarrow> nat list" where
  "buildDimSizes [] dynSizes = []"
| "buildDimSizes (Some sh # shape) dynSizes = sh # buildDimSizes shape dynSizes"
| "buildDimSizes (None # shape) (d # dynSizes) = d # buildDimSizes shape dynSizes"
| "buildDimSizes (None # shape) [] = []"

text \<open>The capacities of the position, coordinate and value buffers.\<close>

definition allocHeuristics :: "SparseTensorType \<Rightarrow> nat list \<Rightarrow> nat option \<Rightarrow> nat \<times> nat \<times> nat" where
  "allocHeuristics stt dimSizes sizeHint =
     (if isAllDense stt then (0, 0, foldl (*) (hd dimSizes) (tl dimSizes))
      else case sizeHint of
        Some hint \<Rightarrow>
          (if cooStart stt = 0 then (2, getDimRank stt * hint, hint)
           else if getDimRank stt = 2 \<and> isDenseLvl stt 0 \<and> isCompressedLvl stt 1
             then (hint + 1, hint, hint)
           else (16, 16, hint))
      | None \<Rightarrow> (16, 16, 16))"

text \<open>
  The allocation of one buffer, with buffer initialisation enabled: every cell is zero.
  The source fills the buffer only when \<^verbatim>\<open>enableInit\<close> is set; without it the cells
  of a fresh buffer hold unspecified values, and only the cells written since (the
  occupied part) are determined.
\<close>

definition createAllocation :: "nat \<Rightarrow> nat list" where
  "createAllocation sz = replicate sz 0"

definition allocField :: "nat \<times> nat \<times> nat \<Rightarrow> FieldId \<Rightarrow> nat list" where
  "allocField heur f =
     (case f of
        PosMemRef l \<Rightarrow> createAllocation (fst heur)
      | CrdMemRef l \<Rightarrow> createAllocation (fst (snd heur))
      | ValMemRef \<Rightarrow> createAllocation (snd (snd heur)))"

definition initLvl :: "SparseTensorType \<Rightarrow> nat list \<Rightarrow> nat \<Rightarrow> SparseTensorDescriptor
    \<Rightarrow> SparseTensorDescriptor" where
  "initLvl stt dimSizes l desc =
     (let desc1 = desc\<lparr>lvlSize := (lvlSize desc)(l := dimSizes ! toOrigDim stt l)\<rparr>
      in if isCompressedLvl stt l then createPushback stt desc1 (PosMemRef l) 0 1 else desc1)"

definition createAllocFields :: "SparseTensorType \<Rightarrow> nat list \<Rightarrow> nat option
    \<Rightarrow> SparseTensorDescriptor option" where
  "createAllocFields stt dynSizes sizeHint =
     (if length dynSizes \<noteq> getNumDynamicDims stt then None
      else
        let dimSizes = buildDimSizes (dimShape stt) dynSizes;
            heur = allocHeuristics stt dimSizes sizeHint;
            fields = foreachFieldInSparseTensor stt;
            desc0 = \<lparr>lvlSize = (\<lambda>l. 0), memSize = (\<lambda>f. 0),
                     memRef = (\<lambda>f. if f \<in> set fields then allocField heur f else [])\<rparr>;
            desc1 = fold (initLvl stt dimSizes) [0 ..< getLvlRank stt] desc0
        in allocSchemeForRank stt desc1 0)"

section \<open>Ordered insertion\<close>

text \<open>
  The block of one compressed level (\<^verbatim>\<open>genCompressed\<close>), in the three parts of the
  generated code. \<open>crdMemSizeAtLvl\<close> is \<^verbatim>\<open>msz\<close>, the number of coordinates stored at
  the level. \<open>genCompressedLookup\<close> is the first conditional: when the range of the parent
  position is not empty it compares the last coordinate of the range with the one to be
  inserted, and otherwise (below level 0) it closes the range of the parent off.
  \<open>genCompressedAppend\<close> is the branch of the second conditional taken when the
  coordinate is not present. The generated code casts the loaded coordinate and the
  loaded end of the range from the element type of their buffers to \<^verbatim>\<open>index\<close>
  before it compares and subtracts; the values here are the natural numbers stored, so
  these casts do not appear (they change nothing on values that fit the element type).
\<close>

definition crdMemSizeAtLvl :: "SparseTensorType \<Rightarrow> SparseTensorDescriptor \<Rightarrow> nat \<Rightarrow> nat" where
  "crdMemSizeAtLvl stt desc lvl =
     (let (crdFidx, crdStride) = getCrdMemRefIndexAndStride stt lvl;
          crdMsz = memSize desc crdFidx
      in if crdStride > 1 then crdMsz div crdStride else crdMsz)"

definition genCompressedLookup :: "SparseTensorType \<Rightarrow> SparseTensorDescriptor \<Rightarrow> nat list
    \<Rightarrow> nat \<Rightarrow> nat \<Rightarrow> nat \<Rightarrow> nat \<Rightarrow> (SparseTensorDescriptor \<times> bool) option" where
  "genCompressedLookup stt desc lvlCoords parentPos lvl pstart pstop =
     (let (crdFidx, crdStride) = getCrdMemRefIndexAndStride stt lvl;
          msz = crdMemSizeAtLvl stt desc lvl;
          plast = pstop - 1
      in if pstart < pstop then
           (case genLoad (memRef desc crdFidx)
                   (if crdStride > 1 then plast * crdStride else plast) of
              None \<Rightarrow> None
            | Some crd \<Rightarrow> Some (desc, crd = lvlCoords ! lvl))
         else if lvl > 0 then
           (case storeField desc (PosMemRef lvl) parentPos msz of
              None \<Rightarrow> None
            | Some desc' \<Rightarrow> Some (desc', False))
         else Some (desc, False))"

definition genCompressedAppend :: "SparseTensorType \<Rightarrow> SparseTensorDescriptor \<Rightarrow> nat list
    \<Rightarrow> nat \<Rightarrow> nat \<Rightarrow> nat \<Rightarrow> (SparseTensorDescriptor \<times> nat) option" where
  "genCompressedAppend stt desc lvlCoords parentPos lvl msz =
     (case storeField desc (PosMemRef lvl) (parentPos + 1) (msz + 1) of
        None \<Rightarrow> None
      | Some desc2 \<Rightarrow>
          (let desc3 = createPushback stt desc2 (CrdMemRef lvl) (lvlCoords ! lvl) 1
           in if lvl + 1 < getLvlRank stt then
                (case allocSchemeForRank stt desc3 (lvl + 1) of
                   None \<Rightarrow> None
                 | Some desc4 \<Rightarrow> Some (desc4, msz))
              else Some (desc3, msz)))"

definition genCompressed :: "SparseTensorType \<Rightarrow> SparseTensorDescriptor \<Rightarrow> nat list \<Rightarrow> nat
    \<Rightarrow> nat \<Rightarrow> (SparseTensorDescriptor \<times> nat) option" where
  "genCompressed stt desc lvlCoords parentPos lvl =
     (if lvl < getLvlRank stt \<and> length lvlCoords = getLvlRank stt then
        (case genLoad (memRef desc (PosMemRef lvl)) parentPos of
           None \<Rightarrow> None
         | Some pstart \<Rightarrow>
        (case genLoad (memRef desc (PosMemRef lvl)) (parentPos + 1) of
           None \<Rightarrow> None
         | Some pstop \<Rightarrow>
        (case genCompressedLookup stt desc lvlCoords parentPos lvl pstart pstop of
           None \<Rightarrow> None
         | Some (desc1, isPresent) \<Rightarrow>
             if (if isUniqueLvl stt lvl then isPresent else False)
             then Some (desc1, pstop - 1)
             else genCompressedAppend stt desc1 lvlCoords parentPos lvl
                    (crdMemSizeAtLvl stt desc lvl))))
      else None)"

text \<open>The loop over the levels of \<^verbatim>\<open>SparseInsertGenerator::genImplementation\<close>.\<close>

function genLevels :: "SparseTensorType \<Rightarrow> nat list \<Rightarrow> nat \<Rightarrow> nat \<Rightarrow> SparseTensorDescriptor
    \<Rightarrow> (SparseTensorDescriptor \<times> nat) option" where
  "genLevels stt coords l parentPos desc =
     (if l < getLvlRank stt then
        (if isCompressedDLT (getLvlType stt l) then
           (case genCompressed stt desc coords parentPos l of
              None \<Rightarrow> None
            | Some (desc', pnext) \<Rightarrow> genLevels stt coords (l + 1) pnext desc')
         else if isSingletonDLT (getLvlType stt l) then
           genLevels stt coords (l + 1) parentPos
             (createPushback stt desc (CrdMemRef l) (coords ! l) 1)
         else if isDenseDLT (getLvlType stt l) then
           genLevels stt coords (l + 1)
             (sizeFromTensorAtLvl stt desc l * parentPos + coords ! l) desc
         else None)
      else Some (desc, parentPos))"
  by pat_completeness auto
termination
  by (relation "measure (\<lambda>(stt, coords, l, parentPos, desc). getLvlRank stt - l)") auto

declare genLevels.simps [simp del]

definition genImplementation :: "SparseTensorType \<Rightarrow> SparseTensorDescriptor \<Rightarrow> nat list \<Rightarrow> nat
    \<Rightarrow> SparseTensorDescriptor option" where
  "genImplementation stt desc coords val =
     (if 0 < getLvlRank stt \<and> length coords = getLvlRank stt then
        (case genLevels stt coords 0 0 desc of
           None \<Rightarrow> None
         | Some (desc', parentPos) \<Rightarrow>
             if \<not> isDenseLvl stt (getLvlRank stt - 1)
             then Some (createPushback stt desc' ValMemRef val 1)
             else storeField desc' ValMemRef parentPos val)
      else None)"

text \<open>A sequence of insertions, each on the result of the one before.\<close>

fun insertAll :: "SparseTensorType \<Rightarrow> SparseTensorDescriptor \<Rightarrow> (nat list \<times> nat) list
    \<Rightarrow> SparseTensorDescriptor option" where
  "insertAll stt desc [] = Some desc"
| "insertAll stt desc ((coords, val) # rest) =
     (case genImplementation stt desc coords val of
        None \<Rightarrow> None
      | Some desc' \<Rightarrow> insertAll stt desc' rest)"

section \<open>Finalization\<close>

text \<open>
  The cleanup loop of \<^verbatim>\<open>genEndInsert\<close> over one position buffer, from index \<open>i\<close> up to
  the occupied length \<open>hi\<close>, carrying the value of the slot before.
\<close>

function cleanupLoop :: "nat list \<Rightarrow> nat \<Rightarrow> nat \<Rightarrow> nat \<Rightarrow> nat list option" where
  "cleanupLoop posMemRef i hi oldv =
     (if i < hi then
        (case genLoad posMemRef i of
           None \<Rightarrow> None
         | Some newv \<Rightarrow>
             if newv = 0 then
               (case genStore oldv posMemRef i of
                  None \<Rightarrow> None
                | Some posMemRef' \<Rightarrow> cleanupLoop posMemRef' (i + 1) hi oldv)
             else cleanupLoop posMemRef (i + 1) hi newv)
      else Some posMemRef)"
  by pat_completeness auto
termination
  by (relation "measure (\<lambda>(posMemRef, i, hi, oldv). hi - i)") auto

declare cleanupLoop.simps [simp del]

definition endInsertLvl :: "SparseTensorType \<Rightarrow> nat \<Rightarrow> SparseTensorDescriptor
    \<Rightarrow> SparseTensorDescriptor option" where
  "endInsertLvl stt l desc =
     (if isCompressedWithHiDLT (getLvlType stt l) then None
      else if isCompressedDLT (getLvlType stt l) then
        (if l > 0 then
           (case genLoad (memRef desc (PosMemRef l)) 0 of
              None \<Rightarrow> None
            | Some oldv \<Rightarrow>
           (case cleanupLoop (memRef desc (PosMemRef l)) 1 (memSize desc (PosMemRef l)) oldv of
              None \<Rightarrow> None
            | Some posMemRef' \<Rightarrow>
                Some (desc\<lparr>memRef := (memRef desc)(PosMemRef l := posMemRef')\<rparr>)))
         else Some desc)
      else Some desc)"

function endInsertLoop :: "SparseTensorType \<Rightarrow> nat \<Rightarrow> SparseTensorDescriptor
    \<Rightarrow> SparseTensorDescriptor option" where
  "endInsertLoop stt l desc =
     (if l < getLvlRank stt then
        (case endInsertLvl stt l desc of
           None \<Rightarrow> None
         | Some desc' \<Rightarrow> endInsertLoop stt (l + 1) desc')
      else Some desc)"
  by pat_completeness auto
termination
  by (relation "measure (\<lambda>(stt, l, desc). getLvlRank stt - l)") auto

declare endInsertLoop.simps [simp del]

definition genEndInsert :: "SparseTensorType \<Rightarrow> SparseTensorDescriptor
    \<Rightarrow> SparseTensorDescriptor option" where
  "genEndInsert stt desc = endInsertLoop stt 0 desc"

section \<open>Auxiliary notions of the properties\<close>

text \<open>The level whose coordinate buffer holds the coordinates of level \<open>l\<close>.\<close>

definition crdLvl :: "SparseTensorType \<Rightarrow> nat \<Rightarrow> nat" where
  "crdLvl stt l = (if cooStart stt \<le> l \<and> l < getLvlRank stt then cooStart stt else l)"

text \<open>
  The scheme of the concrete scenario: a 3 by 3 matrix with a dense level above a
  compressed, ordered and unique level (no merged coordinate buffer), freshly allocated,
  after the insertion of 1 at (0,0), and after all three insertions of the scenario.
\<close>

definition matrix33 :: SparseTensorType where
  "matrix33 = \<lparr>dimShape = [Some 3, Some 3],
     lvlTypes = [\<lparr>levelFormat = Dense, levelOrdered = True, levelUnique = True\<rparr>,
                 \<lparr>levelFormat = Compressed, levelOrdered = True, levelUnique = True\<rparr>],
     dimOrdering = [0, 1], cooStart = 2, posWidth = 64, crdWidth = 64, elementType = 64,
     isSlice = False, hasEncoding = True\<rparr>"

definition matrix33Empty :: SparseTensorDescriptor where
  "matrix33Empty = the (createAllocFields matrix33 [] None)"

definition matrix33Once :: SparseTensorDescriptor where
  "matrix33Once = the (genImplementation matrix33 matrix33Empty [0, 0] 1)"

definition matrix33Filled :: "SparseTensorDescriptor option" where
  "matrix33Filled =
     insertAll matrix33 matrix33Empty [([0, 0], 1), ([0, 2], 2), ([2, 1], 3)]"

text \<open>
  The index in the coordinate buffer of the last coordinate of a range that ends at
  \<open>pstop\<close>.
\<close>

abbreviation (input) crdIdx :: "SparseTensorType \<Rightarrow> nat \<Rightarrow> nat \<Rightarrow> nat" where
  "crdIdx stt l pstop \<equiv> (if snd (getCrdMemRefIndexAndStride stt l) > 1
          then (pstop - 1) * snd (getCrdMemRefIndexAndStride stt l) else pstop - 1)"

text \<open>
  A scheme with a merged coordinate buffer: a matrix stored as a coordinate list, a
  compressed level that is ordered but not unique above a singleton level; freshly
  allocated.
\<close>

definition cooMatrix :: SparseTensorType where
  "cooMatrix = \<lparr>dimShape = [Some 4, Some 4],
     lvlTypes = [\<lparr>levelFormat = Compressed, levelOrdered = True, levelUnique = False\<rparr>,
                 \<lparr>levelFormat = Singleton, levelOrdered = True, levelUnique = True\<rparr>],
     dimOrdering = [0, 1], cooStart = 0, posWidth = 64, crdWidth = 64, elementType = 64,
     isSlice = False, hasEncoding = True\<rparr>"


subsection \<open>What finalization is to compute\<close>

text \<open>
  The repair of one position array as the specification words it: from the second slot
  on, a slot that holds zero takes the value of the slot before it (as repaired), and
  every other slot keeps its value.
\<close>

fun patchFrom :: "nat \<Rightarrow> nat list \<Rightarrow> nat list" where
  "patchFrom prev [] = []"
| "patchFrom prev (x # xs) = (if x = 0 then prev # patchFrom prev xs else x # patchFrom x xs)"

definition patchPositions :: "nat list \<Rightarrow> nat list" where
  "patchPositions ps = (case ps of [] \<Rightarrow> [] | x # xs \<Rightarrow> x # patchFrom x xs)"

text \<open>The levels that finalization repairs: the compressed levels below level 0.\<close>

definition needsCleanup :: "SparseTensorType \<Rightarrow> nat \<Rightarrow> bool" where
  "needsCleanup stt l = (0 < l \<and> l < getLvlRank stt \<and> isCompressedLvl stt l)"

text \<open>
  The buffers after finalization: the occupied part of the position array of every
  repaired level is patched, and every other cell of every buffer is as before.
\<close>

definition patchedField :: "SparseTensorType \<Rightarrow> SparseTensorDescriptor \<Rightarrow> FieldId \<Rightarrow> nat list" where
  "patchedField stt desc f =
     (case f of
        PosMemRef l \<Rightarrow>
          if needsCleanup stt l
          then patchPositions (occupied desc f) @ drop (memSize desc f) (memRef desc f)
          else memRef desc f
      | CrdMemRef l \<Rightarrow> memRef desc f
      | ValMemRef \<Rightarrow> memRef desc f)"

text \<open>
  What finalization needs in order to return: no level with hi/lo position pairs (not
  implemented), and for every repaired level a position buffer that is not empty and
  holds its occupied length.
\<close>

definition canFinalizeLvl :: "SparseTensorType \<Rightarrow> SparseTensorDescriptor \<Rightarrow> nat \<Rightarrow> bool" where
  "canFinalizeLvl stt desc l =
     (if isCompressedWithHiDLT (getLvlType stt l) then False
      else if needsCleanup stt l
        then 0 < length (memRef desc (PosMemRef l))
             \<and> memSize desc (PosMemRef l) \<le> length (memRef desc (PosMemRef l))
      else True)"

definition canFinalize :: "SparseTensorType \<Rightarrow> SparseTensorDescriptor \<Rightarrow> bool" where
  "canFinalize stt desc = list_all (canFinalizeLvl stt desc) [0 ..< getLvlRank stt]"

text \<open>The descriptor with the levels below \<open>l\<close> repaired.\<close>

definition patchedBelow :: "SparseTensorType \<Rightarrow> SparseTensorDescriptor \<Rightarrow> nat
    \<Rightarrow> SparseTensorDescriptor" where
  "patchedBelow stt d l =
     d\<lparr>memRef := (\<lambda>f. case f of PosMemRef k \<Rightarrow> if k < l then patchedField stt d f else memRef d f
                         | CrdMemRef k \<Rightarrow> memRef d f | ValMemRef \<Rightarrow> memRef d f)\<rparr>"

subsection \<open>The allocation rule\<close>

text \<open>
  The results of a conversion rule that does not apply or stops: a plain match failure,
  the reported failure of the allocation rule with the number of dynamic sizes found and
  expected, and a failed assertion.
\<close>

datatype Failure = MatchFailure | WrongNumberOfDynamicSizes nat nat | AssertionFailed

text \<open>
  \<^verbatim>\<open>SparseTensorAllocConverter::matchAndRewrite\<close>. With a tensor to copy, every buffer is
  copied into a fresh buffer of its size and the specifier is reused. Otherwise the
  number of dynamic sizes is checked, and only then are the fields allocated.
\<close>

definition allocTensor :: "SparseTensorType \<Rightarrow> SparseTensorDescriptor option \<Rightarrow> nat list
    \<Rightarrow> nat option \<Rightarrow> Failure + SparseTensorDescriptor" where
  "allocTensor resType copy dynSizes sizeHint =
     (if \<not> hasEncoding resType then Inl MatchFailure
      else case copy of
        Some desc \<Rightarrow> Inr (desc\<lparr>memRef := (\<lambda>f. take (length (memRef desc f)) (memRef desc f))\<rparr>)
      | None \<Rightarrow>
          if length dynSizes \<noteq> getNumDynamicDims resType
          then Inl (WrongNumberOfDynamicSizes (length dynSizes) (getNumDynamicDims resType))
          else (case createAllocFields resType dynSizes sizeHint of
                  None \<Rightarrow> Inl AssertionFailed
                | Some desc \<Rightarrow> Inr desc))"

text \<open>A matrix with two dynamic dimensions, for the allocation rule.\<close>

definition dynMatrix :: SparseTensorType where
  "dynMatrix = matrix33\<lparr>dimShape := [None, None]\<rparr>"

section \<open>Conversion between widths\<close>

text \<open>
  The encoding of a tensor type: everything of the type but its shape and its element
  type. \<open>withoutBitWidths\<close> forgets the widths of positions and coordinates.
\<close>

type_synonym Encoding = "DimLevelType list \<times> nat list \<times> nat \<times> nat \<times> nat \<times> bool"

definition getEncoding :: "SparseTensorType \<Rightarrow> Encoding" where
  "getEncoding stt =
     (lvlTypes stt, dimOrdering stt, cooStart stt, posWidth stt, crdWidth stt, isSlice stt)"

fun withoutBitWidths :: "Encoding \<Rightarrow> Encoding" where
  "withoutBitWidths (lts, dimOrd, coo, posW, crdW, slice) = (lts, dimOrd, coo, 0, 0, slice)"

text \<open>The element type of a buffer of a tensor type.\<close>

definition fieldType :: "SparseTensorType \<Rightarrow> FieldId \<Rightarrow> nat" where
  "fieldType stt f =
     (case f of
        PosMemRef l \<Rightarrow> posWidth stt
      | CrdMemRef l \<Rightarrow> crdWidth stt
      | ValMemRef \<Rightarrow> elementType stt)"

text \<open>
  The loop that converts the elements of a buffer one by one. The cast itself
  (\<^verbatim>\<open>genCast\<close>) is declared outside this file and is a parameter.
\<close>

function convertLoop :: "(nat \<Rightarrow> nat) \<Rightarrow> nat list \<Rightarrow> nat list \<Rightarrow> nat \<Rightarrow> nat \<Rightarrow> nat list option" where
  "convertLoop cast srcMem dstMem i sz =
     (if i < sz then
        (case genLoad srcMem i of
           None \<Rightarrow> None
         | Some v \<Rightarrow>
        (case genStore (cast v) dstMem i of
           None \<Rightarrow> None
         | Some dstMem' \<Rightarrow> convertLoop cast srcMem dstMem' (i + 1) sz))
      else Some dstMem)"
  by pat_completeness auto
termination
  by (relation "measure (\<lambda>(cast, srcMem, dstMem, i, sz). sz - i)") auto

declare convertLoop.simps [simp del]

text \<open>
  One buffer of the result: a fresh buffer of the size of the source buffer, filled by
  the loop of casts when the element types differ and by a copy when they agree.
\<close>

definition convertField :: "SparseTensorType \<Rightarrow> SparseTensorType \<Rightarrow> (nat \<Rightarrow> nat \<Rightarrow> nat \<Rightarrow> nat)
    \<Rightarrow> nat list \<Rightarrow> FieldId \<Rightarrow> nat list option" where
  "convertField srcTp dstTp genCast srcMem f =
     (let sz = length srcMem;
          dstMem = createAllocation sz
      in if fieldType dstTp f \<noteq> fieldType srcTp f
         then convertLoop (genCast (fieldType srcTp f) (fieldType dstTp f)) srcMem dstMem 0 sz
         else Some (take sz srcMem))"

fun convertFields :: "SparseTensorType \<Rightarrow> SparseTensorType \<Rightarrow> (nat \<Rightarrow> nat \<Rightarrow> nat \<Rightarrow> nat)
    \<Rightarrow> SparseTensorDescriptor \<Rightarrow> FieldId list \<Rightarrow> SparseTensorDescriptor
    \<Rightarrow> SparseTensorDescriptor option" where
  "convertFields srcTp dstTp genCast srcDesc [] acc = Some acc"
| "convertFields srcTp dstTp genCast srcDesc (f # fs) acc =
     (case convertField srcTp dstTp genCast (memRef srcDesc f) f of
        None \<Rightarrow> None
      | Some dstMem \<Rightarrow>
          convertFields srcTp dstTp genCast srcDesc fs
            (acc\<lparr>memRef := (memRef acc)(f := dstMem)\<rparr>))"

text \<open>
  \<^verbatim>\<open>SparseConvertConverter::matchAndRewrite\<close>: the rule applies when the encodings agree
  up to the bit widths and the source is no slice; it returns the source when nothing
  changes, and otherwise the converted buffers with the specifier of the source.
\<close>

definition convertOp :: "SparseTensorType \<Rightarrow> SparseTensorType \<Rightarrow> (nat \<Rightarrow> nat \<Rightarrow> nat \<Rightarrow> nat)
    \<Rightarrow> SparseTensorDescriptor \<Rightarrow> Failure + SparseTensorDescriptor" where
  "convertOp srcTp dstTp genCast srcDesc =
     (if isSlice dstTp then Inl AssertionFailed
      else if isSlice srcTp
              \<or> withoutBitWidths (getEncoding dstTp) \<noteq> withoutBitWidths (getEncoding srcTp)
        then Inl MatchFailure
      else if elementType dstTp = elementType srcTp \<and> getEncoding dstTp = getEncoding srcTp
        then Inr srcDesc
      else
        (case convertFields srcTp dstTp genCast srcDesc (foreachFieldInSparseTensor dstTp)
                \<lparr>lvlSize = lvlSize srcDesc, memSize = memSize srcDesc, memRef = (\<lambda>f. [])\<rparr> of
           None \<Rightarrow> Inl AssertionFailed
         | Some dstDesc \<Rightarrow> Inr dstDesc))"

text \<open>The 3 by 3 matrix scheme with positions of 8 bits.\<close>

definition matrix33Narrow :: SparseTensorType where
  "matrix33Narrow = matrix33\<lparr>posWidth := 8\<rparr>"

text \<open>A cast for the examples: the value modulo two to the width of the target.\<close>

definition truncCast :: "nat \<Rightarrow> nat \<Rightarrow> nat \<Rightarrow> nat" where
  "truncCast srcW dstW v = v mod 2 ^ dstW"

section \<open>Packing and unpacking\<close>













section \<open>Bulk construction of a row: expand and compress\<close>

text \<open>
  The scratch buffers of \<^verbatim>\<open>SparseExpandConverter\<close>: the values, the filled switch and the
  added coordinates, all of the size of the innermost level, and the count of added
  coordinates, which starts at zero.
\<close>

record ExpandBuffers =
  expValues :: "nat list"
  expFilled :: "bool list"
  expAdded :: "nat list"
  expCount :: nat

definition expandOp :: "SparseTensorType \<Rightarrow> SparseTensorDescriptor \<Rightarrow> ExpandBuffers option" where
  "expandOp srcType desc =
     (if \<not> hasEncoding srcType then None
      else
        let sz = sizeFromTensorAtDim srcType desc (toOrigDim srcType (getLvlRank srcType - 1))
        in Some \<lparr>expValues = replicate sz 0, expFilled = replicate sz False,
                 expAdded = createAllocation sz, expCount = 0\<rparr>)"

text \<open>
  Modelled from the spec: the accumulation into the scratch buffers is done by the
  caller. For a coordinate that is not filled yet, the switch is set, the coordinate is
  recorded in the added list and the value is stored; for a filled coordinate the value
  is folded into the one that is there, with the reduction of the caller.
\<close>

definition scatter :: "(nat \<Rightarrow> nat \<Rightarrow> nat) \<Rightarrow> ExpandBuffers \<Rightarrow> nat \<times> nat \<Rightarrow> ExpandBuffers option" where
  "scatter reduce b cv =
     (let crd = fst cv; v = snd cv in
      if \<not> (crd < length (expValues b) \<and> crd < length (expFilled b)) then None
      else if expFilled b ! crd
        then Some (b\<lparr>expValues := (expValues b)[crd := reduce (expValues b ! crd) v]\<rparr>)
      else if \<not> expCount b < length (expAdded b) then None
      else Some (b\<lparr>expValues := (expValues b)[crd := v],
                    expFilled := (expFilled b)[crd := True],
                    expAdded := (expAdded b)[expCount b := crd],
                    expCount := expCount b + 1\<rparr>))"

fun scatterAll :: "(nat \<Rightarrow> nat \<Rightarrow> nat) \<Rightarrow> ExpandBuffers \<Rightarrow> (nat \<times> nat) list
    \<Rightarrow> ExpandBuffers option" where
  "scatterAll reduce b [] = Some b"
| "scatterAll reduce b (cv # cvs) =
     (case scatter reduce b cv of
        None \<Rightarrow> None
      | Some b' \<Rightarrow> scatterAll reduce b' cvs)"

text \<open>
  Modelled from the spec: the sort of the added coordinates (\<^verbatim>\<open>SortOp\<close>) is lowered
  outside this file. It brings the first \<open>n\<close> entries into ascending order.
\<close>

definition sortOp :: "nat \<Rightarrow> nat list \<Rightarrow> nat list" where
  "sortOp n xs = sort (take n xs) @ drop n xs"

text \<open>
  The loop of \<^verbatim>\<open>SparseCompressConverter\<close>: every added coordinate is inserted with its
  value, under the coordinates of the outer levels, and its value and switch are reset.
\<close>

function compressLoop :: "SparseTensorType \<Rightarrow> nat list \<Rightarrow> nat list \<Rightarrow> nat \<Rightarrow> nat
    \<Rightarrow> SparseTensorDescriptor \<times> nat list \<times> bool list
    \<Rightarrow> (SparseTensorDescriptor \<times> nat list \<times> bool list) option" where
  "compressLoop stt lvlCoords added i count st =
     (if i < count then
        (case genLoad added i of
           None \<Rightarrow> None
         | Some crd \<Rightarrow>
        (case genLoad (fst (snd st)) crd of
           None \<Rightarrow> None
         | Some val \<Rightarrow>
        (case genImplementation stt (fst st) (lvlCoords @ [crd]) val of
           None \<Rightarrow> None
         | Some desc' \<Rightarrow>
        (case genStore 0 (fst (snd st)) crd of
           None \<Rightarrow> None
         | Some values' \<Rightarrow>
             if crd < length (snd (snd st))
             then compressLoop stt lvlCoords added (i + 1) count
                    (desc', values', (snd (snd st))[crd := False])
             else None))))
      else Some st)"
  by pat_completeness auto
termination
  by (relation "measure (\<lambda>(stt, lvlCoords, added, i, count, st). count - i)") auto

declare compressLoop.simps [simp del]

definition compressOp :: "SparseTensorType \<Rightarrow> SparseTensorDescriptor \<Rightarrow> nat list \<Rightarrow> ExpandBuffers
    \<Rightarrow> (SparseTensorDescriptor \<times> ExpandBuffers) option" where
  "compressOp dstType desc lvlCoords b =
     (let added = (if isOrderedLvl dstType (getLvlRank dstType - 1)
                   then sortOp (expCount b) (expAdded b) else expAdded b)
      in case compressLoop dstType lvlCoords added 0 (expCount b)
                (desc, expValues b, expFilled b) of
           None \<Rightarrow> None
         | Some (desc', values', filled') \<Rightarrow>
             Some (desc', b\<lparr>expValues := values', expFilled := filled', expAdded := added\<rparr>))"

text \<open>
  The insertions of a row of coordinate-value pairs one at a time in sorted order, under
  the coordinates of the outer levels.
\<close>

definition insertRowSorted :: "SparseTensorType \<Rightarrow> SparseTensorDescriptor \<Rightarrow> nat list
    \<Rightarrow> (nat \<times> nat) list \<Rightarrow> SparseTensorDescriptor option" where
  "insertRowSorted stt desc lvlCoords row =
     insertAll stt desc (map (\<lambda>cv. (lvlCoords @ [fst cv], snd cv)) (sort_key fst row))"

text \<open>
  The same row through the scratch buffers: expansion, accumulation of the pairs in the
  order in which they arrive, compression.
\<close>

definition insertRowScattered :: "SparseTensorType \<Rightarrow> SparseTensorDescriptor \<Rightarrow> nat list
    \<Rightarrow> (nat \<Rightarrow> nat \<Rightarrow> nat) \<Rightarrow> (nat \<times> nat) list \<Rightarrow> (SparseTensorDescriptor \<times> ExpandBuffers) option" where
  "insertRowScattered stt desc lvlCoords reduce row =
     (case expandOp stt desc of
        None \<Rightarrow> None
      | Some b \<Rightarrow>
     (case scatterAll reduce b row of
        None \<Rightarrow> None
      | Some b' \<Rightarrow> compressOp stt desc lvlCoords b'))"

text \<open>A vector with one compressed level that is unique but not ordered.\<close>

definition unorderedVector :: SparseTensorType where
  "unorderedVector = \<lparr>dimShape = [Some 4],
     lvlTypes = [\<lparr>levelFormat = Compressed, levelOrdered = False, levelUnique = True\<rparr>],
     dimOrdering = [0], cooStart = 1, posWidth = 64, crdWidth = 64, elementType = 64,
     isSlice = False, hasEncoding = True\<rparr>"

definition unorderedVectorEmpty :: SparseTensorDescriptor where
  "unorderedVectorEmpty = the (createAllocFields unorderedVector [] None)"

subsection \<open>Notions of the insertion properties\<close>

text \<open>
  The number of parent positions of level \<open>l\<close>, that is, of positions at the level above:
  one above level 0; below a dense level as many as that level has parents times its
  size; below a compressed level as many as coordinates are stored at it; a singleton
  level passes the parent position on and so has as many positions as parents.
\<close>

fun numParents :: "SparseTensorType \<Rightarrow> SparseTensorDescriptor \<Rightarrow> nat \<Rightarrow> nat" where
  "numParents stt d 0 = 1"
| "numParents stt d (Suc l) =
     (if isDenseLvl stt l then numParents stt d l * sizeFromTensorAtLvl stt d l
      else if isCompressedLvl stt l then crdMemSizeAtLvl stt d l
      else numParents stt d l)"

text \<open>
  Ordered insertion: coordinate tuples that follow each other in lexicographic order
  (equal tuples included). A tuple is in bounds when its coordinate is below the size of
  the level at every dense level.
\<close>

fun lexLe :: "nat list \<Rightarrow> nat list \<Rightarrow> bool" where
  "lexLe [] ys = True"
| "lexLe (x # xs) [] = False"
| "lexLe (x # xs) (y # ys) = (x < y \<or> x = y \<and> lexLe xs ys)"

definition inBounds :: "SparseTensorType \<Rightarrow> SparseTensorDescriptor \<Rightarrow> nat list \<Rightarrow> bool" where
  "inBounds stt d c =
     list_all (\<lambda>l. if isDenseLvl stt l then c ! l < sizeFromTensorAtLvl stt d l else True)
       [0 ..< getLvlRank stt]"

text \<open>
  The values that a buffer cell of a given bit width holds unchanged. The generated code
  casts a position or coordinate to the element type of its buffer when it stores or
  pushes it, and back to \<^verbatim>\<open>index\<close> when it has loaded it (\<^verbatim>\<open>genCast\<close>, which is
  declared outside this file: a cast between integer types, which truncates to the
  narrower type). A value below two to the width minus one passes both casts unchanged,
  whether the cast back extends with the sign or with zero; width 0 stands for the
  \<^verbatim>\<open>index\<close> type itself, which needs no cast.
  \<^const>\<open>genStore\<close>, \<^const>\<open>createPushback\<close> and \<^const>\<open>genCompressedLookup\<close> above
  store and compare the values themselves, so they describe the generated code on the
  values that fit; the theorems on stored positions and coordinates have this as their
  hypothesis: \<open>coordsFit\<close> for the coordinates of a tuple at the levels that store
  coordinates, \<open>countsFit\<close> for the number of coordinates stored at every compressed
  level (no position stored is larger than that number).
\<close>

definition fitsWidth :: "nat \<Rightarrow> nat \<Rightarrow> bool" where
  "fitsWidth w x = (w = 0 \<or> x < 2 ^ (w - 1))"

definition coordsFit :: "SparseTensorType \<Rightarrow> nat list \<Rightarrow> bool" where
  "coordsFit stt c =
     list_all (\<lambda>l. if isDenseLvl stt l then True else fitsWidth (crdWidth stt) (c ! l))
       [0 ..< getLvlRank stt]"

definition countsFit :: "SparseTensorType \<Rightarrow> SparseTensorDescriptor \<Rightarrow> bool" where
  "countsFit stt d =
     list_all (\<lambda>l. if isCompressedLvl stt l
                   then fitsWidth (posWidth stt) (crdMemSizeAtLvl stt d l) else True)
       [0 ..< getLvlRank stt]"

text \<open>
  The layouts considered for the position arrays: no level with hi/lo position pairs,
  and only singleton levels after the level from which the coordinates are merged.
  \<open>tracked\<close> is the number of levels before the first singleton level (the rank when
  there is none): the scheme loop of allocation and insertion reserves positions for
  these levels only.
\<close>

definition posLayout :: "SparseTensorType \<Rightarrow> bool" where
  "posLayout stt =
     (list_all (\<lambda>dlt. \<not> isCompressedWithHiDLT dlt) (lvlTypes stt)
    \<and> list_all isSingletonDLT (drop (cooStart stt + 1) (lvlTypes stt)))"

definition tracked :: "SparseTensorType \<Rightarrow> nat" where
  "tracked stt = length (takeWhile (\<lambda>dlt. \<not> isSingletonDLT dlt) (lvlTypes stt))"

text \<open>
  A scheme all of whose levels are dense or compressed and unique.
\<close>

definition denseOrUniqueCompressed :: "SparseTensorType \<Rightarrow> bool" where
  "denseOrUniqueCompressed stt =
     list_all (\<lambda>dlt. isDenseDLT dlt \<or> isCompressedDLT dlt \<and> levelUnique dlt) (lvlTypes stt)"

text \<open>
  What insertion keeps of the position buffer of a compressed level, whatever the order
  of the insertions: its occupied length is the number of parent positions plus one and
  within the capacity, and no occupied entry exceeds the number of coordinates stored at
  the level. Only the occupied part is constrained: the cells beyond it are never read
  at these levels, so what allocation leaves in them does not matter.
  \<open>posCap\<close>: the buffer is not empty and holds its occupied length (what finalization
  needs in order to return).
\<close>

definition posReadyLvl :: "SparseTensorType \<Rightarrow> SparseTensorDescriptor \<Rightarrow> nat \<Rightarrow> bool" where
  "posReadyLvl stt d l =
     (memSize d (PosMemRef l) = numParents stt d l + 1
    \<and> memSize d (PosMemRef l) \<le> length (memRef d (PosMemRef l))
    \<and> list_all (\<lambda>x. x \<le> crdMemSizeAtLvl stt d l) (occupied d (PosMemRef l)))"

definition posReady :: "SparseTensorType \<Rightarrow> SparseTensorDescriptor \<Rightarrow> bool" where
  "posReady stt d =
     list_all (\<lambda>l. if isCompressedLvl stt l then posReadyLvl stt d l else True)
       [0 ..< getLvlRank stt]"

definition posCap :: "SparseTensorDescriptor \<Rightarrow> nat \<Rightarrow> bool" where
  "posCap d l = (0 < length (memRef d (PosMemRef l))
               \<and> memSize d (PosMemRef l) \<le> length (memRef d (PosMemRef l)))"

text \<open>
  A 2 by 2 matrix with a compressed level below a singleton level, and a tensor of rank
  4 with a dense and two compressed levels below a singleton level (no merged
  coordinate buffer in either).
\<close>

definition singletonCompressed :: SparseTensorType where
  "singletonCompressed = \<lparr>dimShape = [Some 2, Some 2],
     lvlTypes = [\<lparr>levelFormat = Singleton, levelOrdered = True, levelUnique = True\<rparr>,
                 \<lparr>levelFormat = Compressed, levelOrdered = True, levelUnique = True\<rparr>],
     dimOrdering = [0, 1], cooStart = 2, posWidth = 64, crdWidth = 64, elementType = 64,
     isSlice = False, hasEncoding = True\<rparr>"

definition singletonDenseCompressed :: SparseTensorType where
  "singletonDenseCompressed = \<lparr>dimShape = [Some 2, Some 2, Some 8, Some 4],
     lvlTypes = [\<lparr>levelFormat = Singleton, levelOrdered = True, levelUnique = True\<rparr>,
                 \<lparr>levelFormat = Dense, levelOrdered = True, levelUnique = True\<rparr>,
                 \<lparr>levelFormat = Compressed, levelOrdered = True, levelUnique = True\<rparr>,
                 \<lparr>levelFormat = Compressed, levelOrdered = True, levelUnique = True\<rparr>],
     dimOrdering = [0, 1, 2, 3], cooStart = 4, posWidth = 64, crdWidth = 64, elementType = 64,
     isSlice = False, hasEncoding = True\<rparr>"

text \<open>
  The shape of a position array between insertions. \<open>hsorted\<close>: the entries that are
  not zero do not decrease. \<open>posInv P K m\<close>: the array is zero after the frontier \<open>K\<close>
  (the slot after the last parent visited), its non-zero entries do not decrease, and no
  entry exceeds \<open>m\<close>.
\<close>

definition hsorted :: "nat list \<Rightarrow> bool" where
  "hsorted P = (\<forall>i j. i \<le> j \<and> j < length P \<and> P ! i \<noteq> 0 \<and> P ! j \<noteq> 0 \<longrightarrow> P ! i \<le> P ! j)"

definition posInv :: "nat list \<Rightarrow> nat \<Rightarrow> nat \<Rightarrow> bool" where
  "posInv P K m =
     (K < length P \<and> (\<forall>i. K < i \<and> i < length P \<longrightarrow> P ! i = 0) \<and> hsorted P
      \<and> (\<forall>i < length P. P ! i \<le> m))"

text \<open>
  The product of the sizes of the levels from \<open>l\<close> up to \<open>j\<close>, and the compressed level
  \<open>j\<close> that the scheme loop started at \<open>l\<close> reaches (through dense levels only).
\<close>

definition prodSz :: "SparseTensorType \<Rightarrow> SparseTensorDescriptor \<Rightarrow> nat \<Rightarrow> nat \<Rightarrow> nat" where
  "prodSz stt d l j = prod_list (map (sizeFromTensorAtLvl stt d) [l ..< j])"

definition reach :: "SparseTensorType \<Rightarrow> nat \<Rightarrow> nat \<Rightarrow> bool" where
  "reach stt l j = (l \<le> j \<and> j < getLvlRank stt \<and> isCompressedDLT (getLvlType stt j)
       \<and> (\<forall>i. l \<le> i \<and> i < j \<longrightarrow> isDenseDLT (getLvlType stt i)))"

text \<open>
  The invariant of ordered insertion, on the levels before the first singleton level.
  It is stated with the frontier \<open>K\<close> of every level and the coordinates \<open>lc\<close> inserted
  last. \<open>bnd\<close> is the bound of the position entries of level \<open>j\<close> while the levels
  below \<open>l\<close> have been processed: the number of stored coordinates, counting for a
  merged coordinate buffer the coordinates that the remaining singleton levels are still
  to append. \<open>lvlInv\<close> is the invariant of one compressed level: the occupied length of
  the position array is the number of parents plus one and within the capacity, the
  occupied part has the shape above, and, for a level that has levels below it, the
  entry at the frontier is the number of coordinates stored and the last coordinate
  stored is the one inserted last. \<open>linked\<close> relates the frontier of a level to that of
  the level above. \<open>midInv\<close> is the invariant in the middle of an insertion, before
  level \<open>l\<close> with parent position \<open>p\<close>; \<open>insInv\<close> the one between insertions.
\<close>

definition bnd :: "SparseTensorType \<Rightarrow> SparseTensorDescriptor \<Rightarrow> nat \<Rightarrow> nat \<Rightarrow> nat" where
  "bnd stt e l j =
     (if snd (getCrdMemRefIndexAndStride stt j) > 1 \<and> j < l
      then (memSize e (CrdMemRef (crdLvl stt j)) + (getLvlRank stt - l))
             div snd (getCrdMemRefIndexAndStride stt j)
      else crdMemSizeAtLvl stt e j)"

definition lvlInv :: "SparseTensorType \<Rightarrow> SparseTensorDescriptor \<Rightarrow> (nat \<Rightarrow> nat) \<Rightarrow> nat list
    \<Rightarrow> nat \<Rightarrow> nat \<Rightarrow> bool" where
  "lvlInv stt e K lc l j =
     (memSize e (PosMemRef j) = numParents stt e j + 1
    \<and> memSize e (PosMemRef j) \<le> length (memRef e (PosMemRef j))
    \<and> posInv (occupied e (PosMemRef j)) (K j) (bnd stt e l j)
    \<and> (j = 0 \<longrightarrow> occupied e (PosMemRef j) ! 0 = 0)
    \<and> (j + 1 < tracked stt \<longrightarrow>
          occupied e (PosMemRef j) ! K j = memSize e (CrdMemRef j)
        \<and> (0 < memSize e (CrdMemRef j) \<longrightarrow>
             memRef e (CrdMemRef j) ! (memSize e (CrdMemRef j) - 1) = lc ! j)))"

definition link :: "SparseTensorType \<Rightarrow> SparseTensorDescriptor \<Rightarrow> (nat \<Rightarrow> nat) \<Rightarrow> nat list
    \<Rightarrow> nat \<Rightarrow> nat" where
  "link stt e K lc j =
     (if isDenseLvl stt j
      then (if K j = 0 then 0 else sizeFromTensorAtLvl stt e j * (K j - 1) + lc ! j + 1)
      else memSize e (CrdMemRef j))"

definition linked :: "SparseTensorType \<Rightarrow> SparseTensorDescriptor \<Rightarrow> (nat \<Rightarrow> nat) \<Rightarrow> nat list
    \<Rightarrow> nat \<Rightarrow> nat \<Rightarrow> bool" where
  "linked stt e K lc j v =
     (link stt e K lc j = v
      \<and> (isDenseLvl stt j \<and> 0 < K j \<longrightarrow> lc ! j < sizeFromTensorAtLvl stt e j))"

definition midInv :: "SparseTensorType \<Rightarrow> SparseTensorDescriptor \<Rightarrow> (nat \<Rightarrow> nat) \<Rightarrow> nat list
    \<Rightarrow> nat list \<Rightarrow> nat \<Rightarrow> nat \<Rightarrow> bool" where
  "midInv stt e K lc c l p =
     (length lc = getLvlRank stt \<and> length c = getLvlRank stt \<and> K 0 \<le> 1 \<and> (l = 0 \<longrightarrow> p = 0)
    \<and> (\<forall>j < tracked stt. isCompressedLvl stt j \<longrightarrow> lvlInv stt e K lc l j)
    \<and> (\<forall>j. j + 1 < tracked stt \<and> j + 1 \<noteq> l \<longrightarrow> linked stt e K lc j (K (j + 1)))
    \<and> (0 < l \<and> l < tracked stt \<longrightarrow> linked stt e K lc (l - 1) (p + 1))
    \<and> (l < tracked stt \<longrightarrow> p < numParents stt e l
          \<and> (K l \<le> p \<or> p + 1 = K l \<and> lexLe (drop l lc) (drop l c))))"


definition insInv :: "SparseTensorType \<Rightarrow> SparseTensorDescriptor \<Rightarrow> (nat \<Rightarrow> nat) \<Rightarrow> nat list
    \<Rightarrow> bool" where
  "insInv stt d K lc =
     (length lc = getLvlRank stt \<and> K 0 \<le> 1
    \<and> (\<forall>j < tracked stt. isCompressedLvl stt j \<longrightarrow> lvlInv stt d K lc 0 j)
    \<and> (\<forall>j. j + 1 < tracked stt \<longrightarrow> linked stt d K lc j (K (j + 1))))"

section \<open>Properties\<close>

subsection \<open>push_back\<close>

lemma push_back_size: "snd (push_back sz b v n) = sz + n"
  by (simp add: push_back_def Let_def)

lemma push_back_length_ge: "sz + n \<le> length (fst (push_back sz b v n))"
  by (auto simp add: push_back_def Let_def)

lemma push_back_length_mono: "length b \<le> length (fst (push_back sz b v n))"
  by (auto simp add: push_back_def Let_def)

lemma push_back_nth_new: "sz \<le> i \<Longrightarrow> i < sz + n \<Longrightarrow> fst (push_back sz b v n) ! i = v"
  by (auto simp add: push_back_def Let_def nth_append)

lemma push_back_nth_old: "i < sz \<Longrightarrow> i < length b \<Longrightarrow> fst (push_back sz b v n) ! i = b ! i"
  by (auto simp add: push_back_def Let_def nth_append)

lemma push_back_take: "sz \<le> length b \<Longrightarrow> take (sz + n) (fst (push_back sz b v n)) = take sz b @ replicate n v"
  by (auto simp add: push_back_def Let_def)

subsection \<open>createPushback, storeField\<close>

lemma createPushback_lvlSize [simp]: "lvlSize (createPushback stt d k v n) = lvlSize d"
  by (simp add: createPushback_def Let_def split: prod.splits)

lemma createPushback_memSize:
  "memSize (createPushback stt d k v n) f =
     (if f = getMemRefFieldIndex stt k then memSize d f + n else memSize d f)"
  by (auto simp add: createPushback_def Let_def push_back_def split: prod.splits)

lemma createPushback_memRef_other:
  "f \<noteq> getMemRefFieldIndex stt k \<Longrightarrow> memRef (createPushback stt d k v n) f = memRef d f"
  by (simp add: createPushback_def Let_def split: prod.splits)

lemma createPushback_memRef_same:
  "memRef (createPushback stt d k v n) (getMemRefFieldIndex stt k)
     = fst (push_back (memSize d (getMemRefFieldIndex stt k)) (memRef d (getMemRefFieldIndex stt k)) v n)"
  by (simp add: createPushback_def Let_def split: prod.splits)

lemma createPushback_occupied:
  assumes "memSize d (getMemRefFieldIndex stt k) \<le> length (memRef d (getMemRefFieldIndex stt k))"
  shows "occupied (createPushback stt d k v n) (getMemRefFieldIndex stt k)
           = occupied d (getMemRefFieldIndex stt k) @ replicate n v"
  using push_back_take[OF assms, of n v]
  by (simp add: occupied_def createPushback_memSize createPushback_memRef_same)

lemma fst_getCrdMemRefIndexAndStride [simp]:
  "fst (getCrdMemRefIndexAndStride stt l) = CrdMemRef (crdLvl stt l)"
  by (simp add: getCrdMemRefIndexAndStride_def crdLvl_def)

lemma storeField_lvlSize: "storeField d f i v = Some d' \<Longrightarrow> lvlSize d' = lvlSize d"
  by (auto simp: storeField_def)

lemma storeField_memSize: "storeField d f i v = Some d' \<Longrightarrow> memSize d' = memSize d"
  by (auto simp: storeField_def)

lemma storeField_memRef:
  "storeField d f i v = Some d' \<Longrightarrow> memRef d' g = (if g = f then (memRef d f)[i := v] else memRef d g)"
  by (auto simp: storeField_def genStore_def split: if_splits)

lemma storeField_Some_iff: "(\<exists>d'. storeField d f i v = Some d') = (i < length (memRef d f))"
  by (auto simp: storeField_def genStore_def)

subsection \<open>allocSchemeLoop\<close>

lemma allocSchemeLoop_val:
  "allocSchemeLoop stt d lin l = Some d' \<Longrightarrow> l < getLvlRank stt \<Longrightarrow>
   \<not> isDenseLvl stt (getLvlRank stt - 1) \<Longrightarrow>
   memRef d' ValMemRef = memRef d ValMemRef \<and> memSize d' ValMemRef = memSize d ValMemRef"
proof (induction stt d lin l rule: allocSchemeLoop.induct)
  case (1 stt desc linear l)
  show ?case
  proof (cases "isCompressedDLT (getLvlType stt l)")
    case True
    with 1(2,3) show ?thesis
      by (auto simp add: allocSchemeLoop.simps[of stt desc linear l] createPushback_memSize createPushback_memRef_other)
  next
    case nc: False
    show ?thesis
    proof (cases "isSingletonDLT (getLvlType stt l)")
      case True
      with nc 1(2,3) show ?thesis by (simp add: allocSchemeLoop.simps[of stt desc linear l])
    next
      case ns: False
      show ?thesis
      proof (cases "isDenseDLT (getLvlType stt l)")
        case True
        with 1(3,4) have "l \<noteq> getLvlRank stt - 1" by (auto simp: isDenseLvl_def)
        with 1(3) have lt: "l + 1 < getLvlRank stt" by arith
        from nc ns True 1(2,3) have "allocSchemeLoop stt desc (linear * sizeFromTensorAtLvl stt desc l) (l + 1) = Some d'"
          by (simp add: allocSchemeLoop.simps[of stt desc linear l])
        from 1(1)[OF 1(3) nc ns True this lt 1(4)] show ?thesis .
      next
        case False
        with nc ns 1(2,3) show ?thesis by (simp add: allocSchemeLoop.simps[of stt desc linear l])
      qed
    qed
  qed
qed

subsection \<open>genCompressed\<close>

lemma genCompressedLookup_eq:
  "genCompressedLookup stt d c p l pstart pstop =
     (if pstart < pstop then
        map_option (\<lambda>crd. (d, crd = c ! l))
          (genLoad (memRef d (getMemRefFieldIndex stt (CrdMemRef l))) (crdIdx stt l pstop))
      else if l > 0 then
        map_option (\<lambda>d'. (d', False)) (storeField d (PosMemRef l) p (crdMemSizeAtLvl stt d l))
      else Some (d, False))"
  by (simp add: genCompressedLookup_def Let_def case_prod_beta split: option.splits)

lemma genCompressedLookup_cases:
  assumes "genCompressedLookup stt d c p l pstart pstop = Some (d1, b)"
  obtains (nonempty) crd where "pstart < pstop" "d1 = d"
      "genLoad (memRef d (getMemRefFieldIndex stt (CrdMemRef l))) (crdIdx stt l pstop) = Some crd"
      "b = (crd = c ! l)"
  | (empty0) "\<not> pstart < pstop" "l = 0" "d1 = d" "\<not> b"
  | (empty) "\<not> pstart < pstop" "l > 0" "\<not> b"
      "storeField d (PosMemRef l) p (crdMemSizeAtLvl stt d l) = Some d1"
proof (cases "pstart < pstop")
  case True
  with assms obtain crd where
    "genLoad (memRef d (getMemRefFieldIndex stt (CrdMemRef l))) (crdIdx stt l pstop) = Some crd"
    "d1 = d" "b = (crd = c ! l)"
    unfolding genCompressedLookup_eq by auto
  then show ?thesis using True nonempty by blast
next
  case False
  show ?thesis
  proof (cases "l > 0")
    case True
    with False assms show ?thesis
      unfolding genCompressedLookup_eq by (intro empty) auto
  next
    case l0: False
    with False assms show ?thesis
      unfolding genCompressedLookup_eq by (intro empty0) auto
  qed
qed

lemma genCompressedAppend_cases:
  assumes "genCompressedAppend stt d1 c p l msz = Some (d', q)"
  obtains d2 where "storeField d1 (PosMemRef l) (p + 1) (msz + 1) = Some d2"
     "q = msz"
     "(if l + 1 < getLvlRank stt
        then allocSchemeForRank stt (createPushback stt d2 (CrdMemRef l) (c ! l) 1) (l + 1)
        else Some (createPushback stt d2 (CrdMemRef l) (c ! l) 1)) = Some d'"
  using assms
  by (auto simp: genCompressedAppend_def Let_def split: option.splits if_splits)

lemma genCompressed_cases:
  assumes "genCompressed stt d c p l = Some (d', q)"
  obtains (present) pstart pstop where
      "l < getLvlRank stt" "length c = getLvlRank stt"
      "genLoad (memRef d (PosMemRef l)) p = Some pstart"
      "genLoad (memRef d (PosMemRef l)) (p + 1) = Some pstop"
      "genCompressedLookup stt d c p l pstart pstop = Some (d, True)"
      "pstart < pstop"
      "isUniqueLvl stt l" "d' = d" "q = pstop - 1"
  | (absent) pstart pstop d1 b where
      "l < getLvlRank stt" "length c = getLvlRank stt"
      "genLoad (memRef d (PosMemRef l)) p = Some pstart"
      "genLoad (memRef d (PosMemRef l)) (p + 1) = Some pstop"
      "genCompressedLookup stt d c p l pstart pstop = Some (d1, b)"
      "\<not> (isUniqueLvl stt l \<and> b)"
      "genCompressedAppend stt d1 c p l (crdMemSizeAtLvl stt d l) = Some (d', q)"
proof -
  from assms have g: "l < getLvlRank stt" "length c = getLvlRank stt"
    by (auto simp: genCompressed_def split: if_splits)
  from assms g obtain pstart where ps: "genLoad (memRef d (PosMemRef l)) p = Some pstart"
    by (auto simp: genCompressed_def split: option.splits)
  from assms g ps obtain pstop where pe: "genLoad (memRef d (PosMemRef l)) (p + 1) = Some pstop"
    by (auto simp: genCompressed_def split: option.splits)
  from assms g ps pe obtain d1 b where lk: "genCompressedLookup stt d c p l pstart pstop = Some (d1, b)"
    by (auto simp: genCompressed_def split: option.splits)
  show ?thesis
  proof (cases "isUniqueLvl stt l \<and> b")
    case True
    with assms g ps pe lk have r: "d' = d1" "q = pstop - 1"
      by (auto simp: genCompressed_def)
    from lk True have "pstart < pstop" "d1 = d"
      by (auto elim!: genCompressedLookup_cases)
    with True r lk g ps pe show ?thesis by (intro present) auto
  next
    case False
    with assms g ps pe lk have "genCompressedAppend stt d1 c p l (crdMemSizeAtLvl stt d l) = Some (d', q)"
      by (auto simp: genCompressed_def split: if_splits)
    with False g ps pe lk show ?thesis by (intro absent) auto
  qed
qed

lemma genCompressed_val:
  assumes "genCompressed stt d c p l = Some (d', q)" "\<not> isDenseLvl stt (getLvlRank stt - 1)"
  shows "memRef d' ValMemRef = memRef d ValMemRef \<and> memSize d' ValMemRef = memSize d ValMemRef"
  using assms(1)
proof (cases rule: genCompressed_cases)
  case (present pstart pstop)
  then show ?thesis by simp
next
  case (absent pstart pstop d1 b)
  from absent(5) have d1: "memRef d1 ValMemRef = memRef d ValMemRef \<and> memSize d1 ValMemRef = memSize d ValMemRef"
    by (cases rule: genCompressedLookup_cases) (auto simp: storeField_memRef storeField_memSize)
  from absent(7) obtain d2 where d2: "storeField d1 (PosMemRef l) (p + 1) (crdMemSizeAtLvl stt d l + 1) = Some d2"
    and d': "(if l + 1 < getLvlRank stt
        then allocSchemeForRank stt (createPushback stt d2 (CrdMemRef l) (c ! l) 1) (l + 1)
        else Some (createPushback stt d2 (CrdMemRef l) (c ! l) 1)) = Some d'"
    by (cases rule: genCompressedAppend_cases) auto
  let ?d3 = "createPushback stt d2 (CrdMemRef l) (c ! l) 1"
  from d2 d1 have d3: "memRef ?d3 ValMemRef = memRef d ValMemRef \<and> memSize ?d3 ValMemRef = memSize d ValMemRef"
    by (simp add: createPushback_memRef_other createPushback_memSize storeField_memRef storeField_memSize)
  show ?thesis
  proof (cases "l + 1 < getLvlRank stt")
    case True
    with d' have "allocSchemeLoop stt ?d3 1 (l + 1) = Some d'" by (simp add: allocSchemeForRank_def)
    from allocSchemeLoop_val[OF this True assms(2)] d3 show ?thesis by simp
  next
    case False
    with d' d3 show ?thesis by auto
  qed
qed

lemma genLevels_val:
  "genLevels stt c l p d = Some (d', q) \<Longrightarrow> \<not> isDenseLvl stt (getLvlRank stt - 1) \<Longrightarrow>
   memRef d' ValMemRef = memRef d ValMemRef \<and> memSize d' ValMemRef = memSize d ValMemRef"
proof (induction stt c l p d rule: genLevels.induct)
  case (1 stt coords l parentPos desc)
  note step = "1.prems"(1)[unfolded genLevels.simps[of stt coords l parentPos desc]]
  show ?case
  proof (cases "l < getLvlRank stt")
    case False
    with step show ?thesis by simp
  next
    case lt: True
    show ?thesis
    proof (cases "isCompressedDLT (getLvlType stt l)")
      case True
      with lt step obtain d1 pnext where g: "genCompressed stt desc coords parentPos l = Some (d1, pnext)"
        and r: "genLevels stt coords (l + 1) pnext d1 = Some (d', q)"
        by (auto split: option.splits)
      from "1.IH"(1)[OF lt True g refl r "1.prems"(2)] genCompressed_val[OF g "1.prems"(2)]
      show ?thesis by simp
    next
      case nc: False
      show ?thesis
      proof (cases "isSingletonDLT (getLvlType stt l)")
        case True
        with lt nc step have r: "genLevels stt coords (l + 1) parentPos
             (createPushback stt desc (CrdMemRef l) (coords ! l) 1) = Some (d', q)" by simp
        from "1.IH"(2)[OF lt nc True r "1.prems"(2)]
        show ?thesis by (simp add: createPushback_memRef_other createPushback_memSize)
      next
        case ns: False
        with lt nc step have dn: "isDenseDLT (getLvlType stt l)"
          and r: "genLevels stt coords (l + 1)
             (sizeFromTensorAtLvl stt desc l * parentPos + coords ! l) desc = Some (d', q)"
          by (auto split: if_splits)
        from "1.IH"(3)[OF lt nc ns dn r "1.prems"(2)] show ?thesis .
      qed
    qed
  qed
qed

subsection \<open>The scheme loop\<close>


lemma allocSchemeLoop_crd:
  "allocSchemeLoop stt d lin l = Some d' \<Longrightarrow>
   memRef d' (CrdMemRef k) = memRef d (CrdMemRef k) \<and> memSize d' (CrdMemRef k) = memSize d (CrdMemRef k)"
proof (induction stt d lin l rule: allocSchemeLoop.induct)
  case (1 stt desc linear l)
  from "1.prems" show ?case
    apply (subst (asm) allocSchemeLoop.simps)
    apply (auto split: if_splits simp: createPushback_memRef_other createPushback_memSize dest: "1.IH")
    done
qed

lemma allocSchemeLoop_pos_below:
  "allocSchemeLoop stt d lin l = Some d' \<Longrightarrow> k < l \<Longrightarrow>
   memRef d' (PosMemRef k) = memRef d (PosMemRef k) \<and> memSize d' (PosMemRef k) = memSize d (PosMemRef k)"
proof (induction stt d lin l rule: allocSchemeLoop.induct)
  case (1 stt desc linear l)
  from "1.prems" show ?case
    apply (subst (asm) allocSchemeLoop.simps)
    apply (auto split: if_splits simp: createPushback_memRef_other createPushback_memSize dest: "1.IH")
    done
qed

lemma allocSchemeLoop_lvlSize:
  "allocSchemeLoop stt d lin l = Some d' \<Longrightarrow> lvlSize d' = lvlSize d"
proof (induction stt d lin l rule: allocSchemeLoop.induct)
  case (1 stt desc linear l)
  from "1.prems" show ?case
    apply (subst (asm) allocSchemeLoop.simps)
    apply (auto split: if_splits dest: "1.IH")
    done
qed

subsection \<open>The blocks of a compressed level\<close>

lemma genCompressedLookup_frame:
  assumes "genCompressedLookup stt d c p l pstart pstop = Some (d1, b)"
  shows "lvlSize d1 = lvlSize d" "memSize d1 = memSize d"
    "f \<noteq> PosMemRef l \<Longrightarrow> memRef d1 f = memRef d f"
    "memRef d1 (PosMemRef l) =
       (if pstart < pstop \<or> l = 0 then memRef d (PosMemRef l)
        else (memRef d (PosMemRef l))[p := crdMemSizeAtLvl stt d l])"
  using assms
  by (cases rule: genCompressedLookup_cases;
      auto simp: storeField_lvlSize storeField_memSize storeField_memRef)+

lemma genCompressedAppend_frame:
  assumes "genCompressedAppend stt d1 c p l msz = Some (d', q)"
  shows "q = msz" "lvlSize d' = lvlSize d1"
    "memSize d' (CrdMemRef k) = (if k = crdLvl stt l then memSize d1 (CrdMemRef k) + 1 else memSize d1 (CrdMemRef k))"
    "memRef d' (CrdMemRef (crdLvl stt l)) =
       fst (push_back (memSize d1 (CrdMemRef (crdLvl stt l))) (memRef d1 (CrdMemRef (crdLvl stt l))) (c ! l) 1)"
    "k \<noteq> crdLvl stt l \<Longrightarrow> memRef d' (CrdMemRef k) = memRef d1 (CrdMemRef k)"
    "k \<le> l \<Longrightarrow> memSize d' (PosMemRef k) = memSize d1 (PosMemRef k)"
    "k < l \<Longrightarrow> memRef d' (PosMemRef k) = memRef d1 (PosMemRef k)"
    "memRef d' (PosMemRef l) = (memRef d1 (PosMemRef l))[p + 1 := msz + 1]"
    "p + 1 < length (memRef d1 (PosMemRef l))"
proof -
  from assms obtain d2 where d2: "storeField d1 (PosMemRef l) (p + 1) (msz + 1) = Some d2"
    and q: "q = msz"
    and d': "(if l + 1 < getLvlRank stt
        then allocSchemeForRank stt (createPushback stt d2 (CrdMemRef l) (c ! l) 1) (l + 1)
        else Some (createPushback stt d2 (CrdMemRef l) (c ! l) 1)) = Some d'"
    by (cases rule: genCompressedAppend_cases) auto
  let ?d3 = "createPushback stt d2 (CrdMemRef l) (c ! l) 1"
  note s2 = storeField_lvlSize[OF d2] storeField_memSize[OF d2] storeField_memRef[OF d2]
  have d3: "lvlSize ?d3 = lvlSize d1"
    "\<And>k. memSize ?d3 (CrdMemRef k) = (if k = crdLvl stt l then memSize d1 (CrdMemRef k) + 1 else memSize d1 (CrdMemRef k))"
    "memRef ?d3 (CrdMemRef (crdLvl stt l)) =
       fst (push_back (memSize d1 (CrdMemRef (crdLvl stt l))) (memRef d1 (CrdMemRef (crdLvl stt l))) (c ! l) 1)"
    "\<And>k. k \<noteq> crdLvl stt l \<Longrightarrow> memRef ?d3 (CrdMemRef k) = memRef d1 (CrdMemRef k)"
    "\<And>k. memSize ?d3 (PosMemRef k) = memSize d1 (PosMemRef k)"
    "\<And>k. k \<noteq> l \<Longrightarrow> memRef ?d3 (PosMemRef k) = memRef d1 (PosMemRef k)"
    "memRef ?d3 (PosMemRef l) = (memRef d1 (PosMemRef l))[p + 1 := msz + 1]"
    using createPushback_memRef_same[of stt d2 "CrdMemRef l" "c ! l" 1]
    by (auto simp: s2 createPushback_memSize createPushback_memRef_other)
  have pl: "p + 1 < length (memRef d1 (PosMemRef l))"
    using d2 storeField_Some_iff[of d1 "PosMemRef l" "p + 1" "msz + 1"] by auto
  have fr: "lvlSize d' = lvlSize ?d3
      \<and> (\<forall>k. memRef d' (CrdMemRef k) = memRef ?d3 (CrdMemRef k) \<and> memSize d' (CrdMemRef k) = memSize ?d3 (CrdMemRef k))
      \<and> (\<forall>k\<le>l. memRef d' (PosMemRef k) = memRef ?d3 (PosMemRef k) \<and> memSize d' (PosMemRef k) = memSize ?d3 (PosMemRef k))"
  proof (cases "l + 1 < getLvlRank stt")
    case True
    with d' have a: "allocSchemeLoop stt ?d3 1 (l + 1) = Some d'" by (simp add: allocSchemeForRank_def)
    show ?thesis
      using allocSchemeLoop_lvlSize[OF a] allocSchemeLoop_crd[OF a] allocSchemeLoop_pos_below[OF a]
      by auto
  next
    case False
    with d' show ?thesis by auto
  qed
  show "q = msz" by (rule q)
  show "lvlSize d' = lvlSize d1" using fr d3 by simp
  show "memSize d' (CrdMemRef k) = (if k = crdLvl stt l then memSize d1 (CrdMemRef k) + 1 else memSize d1 (CrdMemRef k))"
    using fr d3(2) by simp
  show "memRef d' (CrdMemRef (crdLvl stt l)) =
       fst (push_back (memSize d1 (CrdMemRef (crdLvl stt l))) (memRef d1 (CrdMemRef (crdLvl stt l))) (c ! l) 1)"
    using fr d3(3) by simp
  show "k \<noteq> crdLvl stt l \<Longrightarrow> memRef d' (CrdMemRef k) = memRef d1 (CrdMemRef k)"
    using fr d3(4) by simp
  show "k \<le> l \<Longrightarrow> memSize d' (PosMemRef k) = memSize d1 (PosMemRef k)"
    using fr d3(5) by simp
  show "k < l \<Longrightarrow> memRef d' (PosMemRef k) = memRef d1 (PosMemRef k)"
    using fr d3(6) by simp
  show "memRef d' (PosMemRef l) = (memRef d1 (PosMemRef l))[p + 1 := msz + 1]"
    using fr d3(7) by simp
  show "p + 1 < length (memRef d1 (PosMemRef l))" by (rule pl)
qed

lemma crdMemSizeAtLvl_eq:
  "crdMemSizeAtLvl stt d l =
     (if snd (getCrdMemRefIndexAndStride stt l) > 1
      then memSize d (CrdMemRef (crdLvl stt l)) div snd (getCrdMemRefIndexAndStride stt l)
      else memSize d (CrdMemRef (crdLvl stt l)))"
  by (simp add: crdMemSizeAtLvl_def Let_def case_prod_beta)




subsection \<open>The cleanup loop\<close>

lemma length_patchFrom [simp]: "length (patchFrom prev xs) = length xs"
  by (induction xs arbitrary: prev) auto

lemma length_patchPositions [simp]: "length (patchPositions ps) = length ps"
  by (cases ps) (simp_all add: patchPositions_def)

lemma cleanupLoop_spec:
  "i \<le> hi \<Longrightarrow> hi \<le> length ps \<Longrightarrow>
   cleanupLoop ps i hi oldv = Some (take i ps @ patchFrom oldv (take (hi - i) (drop i ps)) @ drop hi ps)"
proof (induction ps i hi oldv rule: cleanupLoop.induct)
  case (1 ps i hi oldv)
  show ?case
  proof (cases "i < hi")
    case False
    with "1.prems" show ?thesis by (subst cleanupLoop.simps) simp
  next
    case True
    with "1.prems" have il: "i < length ps" by simp
    then have ld: "genLoad ps i = Some (ps ! i)" by (simp add: genLoad_def)
    have dr: "take (hi - i) (drop i ps) = ps ! i # take (hi - (i + 1)) (drop (i + 1) ps)"
      using True il by (simp add: Cons_nth_drop_Suc[symmetric] take_Suc_Cons[symmetric] Suc_diff_Suc del: take_Suc_Cons)
    show ?thesis
    proof (cases "ps ! i = 0")
      case z: True
      have st: "genStore oldv ps i = Some (ps[i := oldv])" using il by (simp add: genStore_def)
      have "cleanupLoop (ps[i := oldv]) (i + 1) hi oldv =
          Some (take (i + 1) (ps[i := oldv]) @ patchFrom oldv (take (hi - (i + 1)) (drop (i + 1) (ps[i := oldv])))
                 @ drop hi (ps[i := oldv]))"
        using "1.IH"(1)[OF True ld z st] True "1.prems" by simp
      then show ?thesis
        using True il z ld st dr
        by (subst cleanupLoop.simps) (simp add: take_Suc_conv_app_nth)
    next
      case nz: False
      have "cleanupLoop ps (i + 1) hi (ps ! i) =
          Some (take (i + 1) ps @ patchFrom (ps ! i) (take (hi - (i + 1)) (drop (i + 1) ps)) @ drop hi ps)"
        using "1.IH"(2)[OF True ld nz] True "1.prems" by simp
      then show ?thesis
        using True il nz ld dr
        by (subst cleanupLoop.simps) (simp add: take_Suc_conv_app_nth)
    qed
  qed
qed

lemma cleanupLoop_None:
  "i < hi \<Longrightarrow> length ps < hi \<Longrightarrow> i \<le> length ps \<Longrightarrow> cleanupLoop ps i hi oldv = None"
proof (induction ps i hi oldv rule: cleanupLoop.induct)
  case (1 ps i hi oldv)
  show ?case
  proof (cases "i < length ps")
    case False
    with "1.prems" show ?thesis by (subst cleanupLoop.simps) (simp add: genLoad_def)
  next
    case True
    then have ld: "genLoad ps i = Some (ps ! i)" by (simp add: genLoad_def)
    show ?thesis
    proof (cases "ps ! i = 0")
      case z: True
      have st: "genStore oldv ps i = Some (ps[i := oldv])" using True by (simp add: genStore_def)
      from "1.IH"(1)[OF "1.prems"(1) ld z st] True "1.prems"
      have "cleanupLoop (ps[i := oldv]) (i + 1) hi oldv = None" by simp
      with "1.prems" ld z st show ?thesis by (subst cleanupLoop.simps) simp
    next
      case nz: False
      from "1.IH"(2)[OF "1.prems"(1) ld nz] True "1.prems"
      have "cleanupLoop ps (i + 1) hi (ps ! i) = None" by simp
      with "1.prems" ld nz show ?thesis by (subst cleanupLoop.simps) simp
    qed
  qed
qed

lemma patch_cleanup:
  assumes "0 < length ps" "hi \<le> length ps"
  shows "cleanupLoop ps 1 hi (ps ! 0) = Some (patchPositions (take hi ps) @ drop hi ps)"
proof (cases "hi = 0")
  case True
  then show ?thesis by (subst cleanupLoop.simps) (simp add: patchPositions_def)
next
  case False
  then have h: "1 \<le> hi" by simp
  from assms obtain x xs where ps: "ps = x # xs" by (cases ps) auto
  from False obtain h' where hi: "hi = Suc h'" by (cases hi) auto
  from cleanupLoop_spec[OF h assms(2), of "ps ! 0"] show ?thesis
    by (simp add: ps hi patchPositions_def)
qed

lemma endInsertLvl_eq:
  assumes "l < getLvlRank stt"
  shows "endInsertLvl stt l d =
     (if canFinalizeLvl stt d l
      then Some (d\<lparr>memRef := (memRef d)(PosMemRef l := patchedField stt d (PosMemRef l))\<rparr>)
      else None)"
proof (cases "isCompressedWithHiDLT (getLvlType stt l)")
  case True
  then show ?thesis by (simp add: endInsertLvl_def canFinalizeLvl_def)
next
  case nh: False
  show ?thesis
  proof (cases "needsCleanup stt l")
    case False
    with nh assms show ?thesis
      by (auto simp: endInsertLvl_def canFinalizeLvl_def patchedField_def needsCleanup_def isCompressedLvl_def)
  next
    case True
    then have c: "isCompressedDLT (getLvlType stt l)" "0 < l"
      by (auto simp: needsCleanup_def isCompressedLvl_def)
    let ?ps = "memRef d (PosMemRef l)" and ?hi = "memSize d (PosMemRef l)"
    show ?thesis
    proof (cases "0 < length ?ps")
      case False
      with nh True c show ?thesis
        by (simp add: endInsertLvl_def canFinalizeLvl_def genLoad_def)
    next
      case ne: True
      then have ld: "genLoad ?ps 0 = Some (?ps ! 0)" by (simp add: genLoad_def)
      show ?thesis
      proof (cases "?hi \<le> length ?ps")
        case le: True
        from patch_cleanup[OF ne le] nh True c ne le ld show ?thesis
          by (simp add: endInsertLvl_def canFinalizeLvl_def patchedField_def occupied_def)
      next
        case gt: False
        with ne have "1 < ?hi" "length ?ps < ?hi" "1 \<le> length ?ps"
          by (cases "memRef d (PosMemRef l)"; simp)+
        from cleanupLoop_None[OF this, of "?ps ! 0"] nh True c ne gt ld show ?thesis
          by (simp add: endInsertLvl_def canFinalizeLvl_def)
      qed
    qed
  qed
qed

lemma patchedBelow_step:
  "l < getLvlRank stt \<Longrightarrow>
   (patchedBelow stt d l)\<lparr>memRef := (memRef (patchedBelow stt d l))
       (PosMemRef l := patchedField stt (patchedBelow stt d l) (PosMemRef l))\<rparr>
    = patchedBelow stt d (l + 1)"
  by (auto simp: patchedBelow_def patchedField_def occupied_def fun_eq_iff split: FieldId.splits)

lemma canFinalizeLvl_patchedBelow:
  "canFinalizeLvl stt (patchedBelow stt d l) l = canFinalizeLvl stt d l"
  by (simp add: canFinalizeLvl_def patchedBelow_def)

lemma endInsertLoop_eq:
  "l \<le> getLvlRank stt \<Longrightarrow>
   endInsertLoop stt l (patchedBelow stt d l) =
     (if list_all (canFinalizeLvl stt d) [l ..< getLvlRank stt]
      then Some (patchedBelow stt d (getLvlRank stt)) else None)"
proof (induction "getLvlRank stt - l" arbitrary: l)
  case 0
  then show ?case by (subst endInsertLoop.simps) simp
next
  case (Suc n)
  then have lt: "l < getLvlRank stt" and n: "n = getLvlRank stt - (l + 1)" by auto
  have up: "[l ..< getLvlRank stt] = l # [l + 1 ..< getLvlRank stt]"
    using lt by (simp add: upt_conv_Cons)
  show ?case
  proof (cases "canFinalizeLvl stt d l")
    case False
    with lt show ?thesis
      by (subst endInsertLoop.simps) (simp add: endInsertLvl_eq canFinalizeLvl_patchedBelow up)
  next
    case True
    from Suc.hyps(1)[OF n] lt have
      "endInsertLoop stt (l + 1) (patchedBelow stt d (l + 1)) =
         (if list_all (canFinalizeLvl stt d) [l + 1 ..< getLvlRank stt]
          then Some (patchedBelow stt d (getLvlRank stt)) else None)" by simp
    with True lt show ?thesis
      by (subst endInsertLoop.simps)
         (simp add: endInsertLvl_eq canFinalizeLvl_patchedBelow up patchedBelow_step)
  qed
qed

lemma patchedBelow_0: "patchedBelow stt d 0 = d"
  by (cases d) (auto simp: patchedBelow_def fun_eq_iff split: FieldId.splits)

lemma patchedBelow_rank: "patchedBelow stt d (getLvlRank stt) = d\<lparr>memRef := patchedField stt d\<rparr>"
  by (auto simp: patchedBelow_def patchedField_def needsCleanup_def fun_eq_iff split: FieldId.splits)

subsection \<open>Conversion\<close>

lemma convertLoop_spec:
  "i \<le> sz \<Longrightarrow> sz = length srcMem \<Longrightarrow> length dstMem = sz \<Longrightarrow>
   convertLoop cast srcMem dstMem i sz = Some (take i dstMem @ map cast (drop i srcMem))"
proof (induction cast srcMem dstMem i sz rule: convertLoop.induct)
  case (1 cast srcMem dstMem i sz)
  show ?case
  proof (cases "i < sz")
    case False
    with "1.prems" show ?thesis by (subst convertLoop.simps) simp
  next
    case True
    with "1.prems" have ld: "genLoad srcMem i = Some (srcMem ! i)"
      and st: "genStore (cast (srcMem ! i)) dstMem i = Some (dstMem[i := cast (srcMem ! i)])"
      by (simp_all add: genLoad_def genStore_def)
    from "1.IH"[OF True ld st] True "1.prems"
    have "convertLoop cast srcMem (dstMem[i := cast (srcMem ! i)]) (i + 1) sz =
        Some (take (i + 1) (dstMem[i := cast (srcMem ! i)]) @ map cast (drop (i + 1) srcMem))"
      by simp
    with True ld st "1.prems" show ?thesis
      by (subst convertLoop.simps)
         (simp add: take_Suc_conv_app_nth Cons_nth_drop_Suc[symmetric])
  qed
qed

lemma convertField_eq:
  "convertField srcTp dstTp genCast srcMem f =
     Some (if fieldType dstTp f = fieldType srcTp f then srcMem
           else map (genCast (fieldType srcTp f) (fieldType dstTp f)) srcMem)"
  using convertLoop_spec[of 0 "length srcMem" srcMem "createAllocation (length srcMem)"
          "genCast (fieldType srcTp f) (fieldType dstTp f)"]
  by (simp add: convertField_def Let_def createAllocation_def)

lemma convertFields_eq:
  "\<exists>d'. convertFields srcTp dstTp genCast srcDesc fs acc = Some d'
      \<and> lvlSize d' = lvlSize acc \<and> memSize d' = memSize acc
      \<and> (\<forall>f. memRef d' f =
            (if f \<in> set fs
             then (if fieldType dstTp f = fieldType srcTp f then memRef srcDesc f
                   else map (genCast (fieldType srcTp f) (fieldType dstTp f)) (memRef srcDesc f))
             else memRef acc f))"
proof (induction fs arbitrary: acc)
  case Nil
  show ?case by simp
next
  case (Cons f fs)
  let ?m = "if fieldType dstTp f = fieldType srcTp f then memRef srcDesc f
            else map (genCast (fieldType srcTp f) (fieldType dstTp f)) (memRef srcDesc f)"
  from Cons.IH[of "acc\<lparr>memRef := (memRef acc)(f := ?m)\<rparr>"]
  obtain d' where d: "convertFields srcTp dstTp genCast srcDesc fs
        (acc\<lparr>memRef := (memRef acc)(f := ?m)\<rparr>) = Some d'"
      "lvlSize d' = lvlSize acc" "memSize d' = memSize acc"
      "\<And>g. memRef d' g =
            (if g \<in> set fs
             then (if fieldType dstTp g = fieldType srcTp g then memRef srcDesc g
                   else map (genCast (fieldType srcTp g) (fieldType dstTp g)) (memRef srcDesc g))
             else ((memRef acc)(f := ?m)) g)"
    by auto
  have "convertFields srcTp dstTp genCast srcDesc (f # fs) acc = Some d'"
    using d(1) by (simp add: convertField_eq)
  with d(2,3,4) show ?case by auto
qed

subsection \<open>Packing and unpacking\<close>










subsection \<open>Expansion and compression\<close>

lemma map_insort_key: "map f (insort_key f x ys) = insort (f x) (map f ys)"
  by (induction ys) auto

lemma map_sort_key: "map f (sort_key f xs) = sort (map f xs)"
  by (induction xs) (auto simp: map_insort_key)

lemma sort_key_by_lookup:
  assumes "distinct (map fst kvs)"
  shows "sort_key fst kvs = map (\<lambda>k. (k, the (map_of kvs k))) (sort (map fst kvs))"
proof -
  have "map (\<lambda>p. (fst p, the (map_of kvs (fst p)))) (sort_key fst kvs) = sort_key fst kvs"
  proof (rule map_idI)
    fix p assume "p \<in> set (sort_key fst kvs)"
    then have "(fst p, snd p) \<in> set kvs" by simp
    then have "map_of kvs (fst p) = Some (snd p)"
      by (rule map_of_is_SomeI[OF assms])
    then show "(fst p, the (map_of kvs (fst p))) = p" by simp
  qed
  then have "sort_key fst kvs = map (\<lambda>k. (k, the (map_of kvs k))) (map fst (sort_key fst kvs))"
    by (simp add: comp_def)
  then show ?thesis by (simp add: map_sort_key)
qed

text \<open>The scratch buffers after the accumulation of pairs with distinct coordinates.\<close>

lemma scatterAll_distinct:
  assumes "distinct (seen @ map fst kvs)" "\<forall>k \<in> set (seen @ map fst kvs). k < sz"
    and "length (expValues b) = sz" "length (expFilled b) = sz" "length (expAdded b) = sz"
    and "expCount b = length seen" "take (length seen) (expAdded b) = seen"
    and "\<forall>k < sz. expFilled b ! k = (k \<in> set seen)"
  shows "\<exists>b'. scatterAll reduce b kvs = Some b'
     \<and> length (expValues b') = sz \<and> length (expFilled b') = sz \<and> length (expAdded b') = sz
     \<and> expCount b' = length seen + length kvs
     \<and> take (expCount b') (expAdded b') = seen @ map fst kvs
     \<and> (\<forall>k < sz. expFilled b' ! k = (k \<in> set (seen @ map fst kvs)))
     \<and> (\<forall>k < sz. expValues b' ! k =
            (case map_of kvs k of Some v \<Rightarrow> v | None \<Rightarrow> expValues b ! k))"
  using assms
proof (induction kvs arbitrary: b seen)
  case Nil
  then show ?case by simp
next
  case (Cons cv kvs)
  obtain c v where cv: "cv = (c, v)" by (cases cv)
  from Cons.prems(1,2) cv have c: "c < sz" "c \<notin> set seen" "c \<notin> set (map fst kvs)" by auto
  have "set (c # seen) \<subseteq> {0 ..< sz}" using Cons.prems(2) cv by auto
  then have "card (set (c # seen)) \<le> sz"
    using card_mono[of "{0 ..< sz}" "set (c # seen)"] by simp
  moreover have "distinct (c # seen)" using Cons.prems(1) c by simp
  ultimately have cnt: "length seen < sz" using distinct_card[of "c # seen"] by simp
  let ?b1 = "b\<lparr>expValues := (expValues b)[c := v],
                expFilled := (expFilled b)[c := True],
                expAdded := (expAdded b)[expCount b := c],
                expCount := expCount b + 1\<rparr>"
  have s1: "scatter reduce b cv = Some ?b1"
    using c cnt Cons.prems(3-8) by (simp add: scatter_def cv)
  have tk: "take (length (seen @ [c])) (expAdded ?b1) = seen @ [c]"
    using Cons.prems(5,6,7) cnt by (simp add: take_Suc_conv_app_nth)
  have fl: "\<forall>k < sz. expFilled ?b1 ! k = (k \<in> set (seen @ [c]))"
    using Cons.prems(4,8) c by (auto simp: nth_list_update)
  have ih: "\<exists>b'. scatterAll reduce ?b1 kvs = Some b'
     \<and> length (expValues b') = sz \<and> length (expFilled b') = sz \<and> length (expAdded b') = sz
     \<and> expCount b' = length (seen @ [c]) + length kvs
     \<and> take (expCount b') (expAdded b') = (seen @ [c]) @ map fst kvs
     \<and> (\<forall>k < sz. expFilled b' ! k = (k \<in> set ((seen @ [c]) @ map fst kvs)))
     \<and> (\<forall>k < sz. expValues b' ! k =
            (case map_of kvs k of Some v \<Rightarrow> v | None \<Rightarrow> expValues ?b1 ! k))"
  proof (rule Cons.IH)
    show "distinct ((seen @ [c]) @ map fst kvs)" using Cons.prems(1) cv by auto
    show "\<forall>k\<in>set ((seen @ [c]) @ map fst kvs). k < sz" using Cons.prems(2) cv by auto
    show "length (expValues ?b1) = sz" "length (expFilled ?b1) = sz" "length (expAdded ?b1) = sz"
      using Cons.prems(3,4,5) by simp_all
    show "expCount ?b1 = length (seen @ [c])" using Cons.prems(6) by simp
    show "take (length (seen @ [c])) (expAdded ?b1) = seen @ [c]" by (rule tk)
    show "\<forall>k<sz. expFilled ?b1 ! k = (k \<in> set (seen @ [c]))" by (rule fl)
  qed
  then obtain b' where b': "scatterAll reduce ?b1 kvs = Some b'"
     "length (expValues b') = sz" "length (expFilled b') = sz" "length (expAdded b') = sz"
     "expCount b' = length (seen @ [c]) + length kvs"
     "take (expCount b') (expAdded b') = (seen @ [c]) @ map fst kvs"
     "\<forall>k < sz. expFilled b' ! k = (k \<in> set ((seen @ [c]) @ map fst kvs))"
     "\<forall>k < sz. expValues b' ! k =
            (case map_of kvs k of Some v \<Rightarrow> v | None \<Rightarrow> expValues ?b1 ! k)"
    by blast
  have vals: "\<forall>k < sz. expValues b' ! k =
            (case map_of (cv # kvs) k of Some v \<Rightarrow> v | None \<Rightarrow> expValues b ! k)"
  proof (intro allI impI)
    fix k assume k: "k < sz"
    show "expValues b' ! k = (case map_of (cv # kvs) k of Some v \<Rightarrow> v | None \<Rightarrow> expValues b ! k)"
    proof (cases "k = c")
      case True
      with c(3) have "map_of kvs k = None" by (simp add: map_of_eq_None_iff)
      with b'(8) k True Cons.prems(3) c(1) show ?thesis by (simp add: cv)
    next
      case False
      with b'(8) k show ?thesis by (simp add: cv split: option.splits)
    qed
  qed
  from s1 b' vals show ?case by (simp add: cv)
qed

lemma compressLoop_spec:
  assumes "i \<le> count" "count \<le> length A"
    and "distinct (drop i (take count A))"
    and "\<forall>k \<in> set (drop i (take count A)). k < length V \<and> k < length F"
  shows "compressLoop stt lc A i count (d, V, F) =
     (case insertAll stt d (map (\<lambda>k. (lc @ [k], V ! k)) (drop i (take count A))) of
        None \<Rightarrow> None
      | Some d' \<Rightarrow> Some (d', fold (\<lambda>k W. W[k := 0]) (drop i (take count A)) V,
                         fold (\<lambda>k G. G[k := False]) (drop i (take count A)) F))"
  using assms
proof (induction "count - i" arbitrary: i d V F)
  case 0
  then show ?case by (subst compressLoop.simps) simp
next
  case (Suc n)
  then have lt: "i < count" and n: "n = count - (i + 1)" by auto
  let ?crd = "A ! i"
  let ?rest = "drop (i + 1) (take count A)"
  have dr: "drop i (take count A) = ?crd # ?rest"
    using lt Suc.prems(2) by (simp add: Cons_nth_drop_Suc[symmetric])
  from Suc.prems(3,4) dr have crd: "?crd \<notin> set ?rest" "distinct ?rest"
    "?crd < length V" "?crd < length F"
    "\<forall>k \<in> set ?rest. k < length V \<and> k < length F"
    by auto
  have ld: "genLoad A i = Some ?crd" using lt Suc.prems(2) by (simp add: genLoad_def)
  have lv: "genLoad V ?crd = Some (V ! ?crd)" using crd(3) by (simp add: genLoad_def)
  have st: "genStore 0 V ?crd = Some (V[?crd := 0])" using crd(3) by (simp add: genStore_def)
  have mp: "map (\<lambda>k. (lc @ [k], V[?crd := 0] ! k)) ?rest = map (\<lambda>k. (lc @ [k], V ! k)) ?rest"
  proof (rule map_cong[OF refl])
    fix k assume "k \<in> set ?rest"
    with crd(1) have "?crd \<noteq> k" by auto
    then show "(lc @ [k], V[?crd := 0] ! k) = (lc @ [k], V ! k)" by simp
  qed
  show ?case
  proof (cases "genImplementation stt d (lc @ [?crd]) (V ! ?crd)")
    case None
    with lt ld lv show ?thesis by (subst compressLoop.simps) (simp add: dr)
  next
    case (Some d1)
    have ih: "compressLoop stt lc A (i + 1) count (d1, V[?crd := 0], F[?crd := False]) =
       (case insertAll stt d1 (map (\<lambda>k. (lc @ [k], V[?crd := 0] ! k)) ?rest) of
          None \<Rightarrow> None
        | Some d' \<Rightarrow> Some (d', fold (\<lambda>k W. W[k := 0]) ?rest (V[?crd := 0]),
                         fold (\<lambda>k G. G[k := False]) ?rest (F[?crd := False])))"
      using Suc.hyps(1)[where i = "i + 1" and d = d1 and V = "V[?crd := 0]"
              and F = "F[?crd := False]", OF n] lt Suc.prems(2) crd
      by simp
    have lhs: "compressLoop stt lc A i count (d, V, F)
        = compressLoop stt lc A (i + 1) count (d1, V[?crd := 0], F[?crd := False])"
      using Some lt ld lv st crd(4) by (subst compressLoop.simps) simp
    have rhs: "(case insertAll stt d (map (\<lambda>k. (lc @ [k], V ! k)) (drop i (take count A))) of
        None \<Rightarrow> None
      | Some d' \<Rightarrow> Some (d', fold (\<lambda>k W. W[k := 0]) (drop i (take count A)) V,
                         fold (\<lambda>k G. G[k := False]) (drop i (take count A)) F))
      = (case insertAll stt d1 (map (\<lambda>k. (lc @ [k], V ! k)) ?rest) of
          None \<Rightarrow> None
        | Some d' \<Rightarrow> Some (d', fold (\<lambda>k W. W[k := 0]) ?rest (V[?crd := 0]),
                         fold (\<lambda>k G. G[k := False]) ?rest (F[?crd := False])))"
      unfolding dr using Some by (simp split: option.splits)
    show ?thesis unfolding lhs rhs ih mp ..
  qed
qed

lemma fold_reset_nth:
  "k < length V \<Longrightarrow> fold (\<lambda>k W. W[k := z]) ks V ! k = (if k \<in> set ks then z else V ! k)"
  by (induction ks arbitrary: V) (auto simp: nth_list_update)

lemma fold_reset_length [simp]: "length (fold (\<lambda>k W. W[k := z]) ks V) = length V"
  by (induction ks arbitrary: V) auto

lemma take_sortOp: "n \<le> length xs \<Longrightarrow> take n (sortOp n xs) = sort (take n xs)"
  by (simp add: sortOp_def)

lemma length_sortOp [simp]: "length (sortOp n xs) = length xs"
  by (simp add: sortOp_def)

subsection \<open>Position arrays under insertion\<close>

lemma posInv_append:
  "posInv P K m \<Longrightarrow> posInv (P @ replicate n 0) K m"
  by (auto simp: posInv_def hsorted_def nth_append)

lemma posInv_mono: "posInv P K m \<Longrightarrow> m \<le> m' \<Longrightarrow> posInv P K m'"
  by (auto simp: posInv_def intro: le_trans)

lemma posInv_step:
  assumes "posInv P K m" "K \<le> p + 1" "p + 1 < length P" "a = P ! p \<or> a = m"
  shows "posInv (P[p := a, p + 1 := m + 1]) (p + 1) (m + 1)"
proof -
  let ?P = "P[p := a, p + 1 := m + 1]"
  from assms(1) have z: "\<And>i. K < i \<Longrightarrow> i < length P \<Longrightarrow> P ! i = 0"
    and hs: "\<And>i j. i \<le> j \<Longrightarrow> j < length P \<Longrightarrow> P ! i \<noteq> 0 \<Longrightarrow> P ! j \<noteq> 0 \<Longrightarrow> P ! i \<le> P ! j"
    and bd: "\<And>i. i < length P \<Longrightarrow> P ! i \<le> m"
    by (auto simp: posInv_def hsorted_def)
  have am: "a \<le> m" using assms(3,4) bd[of p] by auto
  have nth: "\<And>i. i < length P \<Longrightarrow> ?P ! i = (if i = p + 1 then m + 1 else if i = p then a else P ! i)"
    by (simp add: nth_list_update)
  have b': "?P ! i \<le> m + 1" if "i < length P" for i
    using bd[OF that] am nth[OF that] by auto
  have z': "?P ! i = 0" if "p + 1 < i" "i < length P" for i
    using z[of i] assms(2) that nth[OF that(2)] by auto
  have hs': "?P ! i \<le> ?P ! j" if "i \<le> j" "j < length P" "?P ! i \<noteq> 0" "?P ! j \<noteq> 0" for i j
  proof -
    from that z'[of j] have jp: "j \<le> p + 1" by (cases "p + 1 < j") auto
    show ?thesis
    proof (cases "j = p + 1")
      case True
      with b'[of i] that show ?thesis by (simp add: nth)
    next
      case False
      with jp have jle: "j \<le> p" by simp
      show ?thesis
      proof (cases "j = p")
        case True
        show ?thesis
        proof (cases "i = p")
          case True
          with \<open>j = p\<close> show ?thesis by simp
        next
          case ip: False
          with that True have il: "i < p" by simp
          from assms(4) show ?thesis
          proof
            assume "a = P ! p"
            with that True il hs[of i p] assms(3) show ?thesis by (simp add: nth)
          next
            assume "a = m"
            with that True il bd[of i] assms(3) show ?thesis by (simp add: nth)
          qed
        qed
      next
        case jp': False
        with jle have "j < p" by simp
        with that hs[of i j] show ?thesis by (simp add: nth)
      qed
    qed
  qed
  show ?thesis
    unfolding posInv_def hsorted_def using assms(3) b' z' hs' by auto
qed

lemma hsorted_Cons:
  "hsorted (x # xs) = (hsorted xs \<and> (x \<noteq> 0 \<longrightarrow> (\<forall>y\<in>set xs. y \<noteq> 0 \<longrightarrow> x \<le> y)))"
proof
  assume h: "hsorted (x # xs)"
  have "hsorted xs"
    unfolding hsorted_def
  proof (intro allI impI)
    fix i j assume "i \<le> j \<and> j < length xs \<and> xs ! i \<noteq> 0 \<and> xs ! j \<noteq> 0"
    with h[unfolded hsorted_def, rule_format, of "Suc i" "Suc j"] show "xs ! i \<le> xs ! j" by simp
  qed
  moreover have "x \<le> y" if "x \<noteq> 0" "y \<in> set xs" "y \<noteq> 0" for y
  proof -
    from that(2) obtain k where "k < length xs" "xs ! k = y" by (auto simp: in_set_conv_nth)
    with h[unfolded hsorted_def, rule_format, of 0 "Suc k"] that show ?thesis by simp
  qed
  ultimately show "hsorted xs \<and> (x \<noteq> 0 \<longrightarrow> (\<forall>y\<in>set xs. y \<noteq> 0 \<longrightarrow> x \<le> y))" by blast
next
  assume a: "hsorted xs \<and> (x \<noteq> 0 \<longrightarrow> (\<forall>y\<in>set xs. y \<noteq> 0 \<longrightarrow> x \<le> y))"
  show "hsorted (x # xs)"
    unfolding hsorted_def
  proof (intro allI impI)
    fix i j assume ij: "i \<le> j \<and> j < length (x # xs) \<and> (x # xs) ! i \<noteq> 0 \<and> (x # xs) ! j \<noteq> 0"
    show "(x # xs) ! i \<le> (x # xs) ! j"
    proof (cases i)
      case 0
      show ?thesis
      proof (cases j)
        case 0
        with \<open>i = 0\<close> show ?thesis by simp
      next
        case (Suc j')
        with ij 0 a show ?thesis by auto
      qed
    next
      case (Suc i')
      with ij obtain j' where j': "j = Suc j'" by (cases j) auto
      with Suc ij a[THEN conjunct1, unfolded hsorted_def, rule_format, of i' j'] show ?thesis by simp
    qed
  qed
qed

lemma patchFrom_sorted:
  "hsorted xs \<Longrightarrow> (\<forall>y\<in>set xs. y \<noteq> 0 \<longrightarrow> prev \<le> y) \<Longrightarrow> sorted (prev # patchFrom prev xs)"
proof (induction xs arbitrary: prev)
  case Nil
  then show ?case by simp
next
  case (Cons x xs)
  from Cons.prems(1) have h: "hsorted xs" and hx: "x \<noteq> 0 \<longrightarrow> (\<forall>y\<in>set xs. y \<noteq> 0 \<longrightarrow> x \<le> y)"
    by (simp_all add: hsorted_Cons)
  show ?case
  proof (cases "x = 0")
    case True
    with Cons.IH[OF h, of prev] Cons.prems(2) show ?thesis by simp
  next
    case False
    with Cons.IH[OF h, of x] hx Cons.prems(2) show ?thesis by (auto intro: order_trans)
  qed
qed

lemma hsorted_patchPositions: "hsorted P \<Longrightarrow> sorted (patchPositions P)"
proof (cases P)
  case Nil
  then show ?thesis by (simp add: patchPositions_def)
next
  case (Cons x xs)
  assume "hsorted P"
  with Cons have h: "hsorted xs" and hx: "x \<noteq> 0 \<longrightarrow> (\<forall>y\<in>set xs. y \<noteq> 0 \<longrightarrow> x \<le> y)"
    by (simp_all add: hsorted_Cons)
  have "\<forall>y\<in>set xs. y \<noteq> 0 \<longrightarrow> x \<le> y" using hx by (cases "x = 0") auto
  from patchFrom_sorted[OF h this] Cons show ?thesis by (simp add: patchPositions_def)
qed

lemma sizeFromTensorAtLvl_cong:
  "lvlSize F = lvlSize e \<Longrightarrow> sizeFromTensorAtLvl stt F l = sizeFromTensorAtLvl stt e l"
  by (simp add: sizeFromTensorAtLvl_def sizeFromTensorAtDim_def split: option.splits)

lemma prodSz_cong: "lvlSize F = lvlSize e \<Longrightarrow> prodSz stt F l j = prodSz stt e l j"
proof -
  assume "lvlSize F = lvlSize e"
  then have "sizeFromTensorAtLvl stt F = sizeFromTensorAtLvl stt e"
    by (intro ext) (rule sizeFromTensorAtLvl_cong)
  then show ?thesis by (simp add: prodSz_def)
qed

lemma prodSz_same [simp]: "prodSz stt d l l = 1"
  by (simp add: prodSz_def)

lemma prodSz_Suc: "l \<le> j \<Longrightarrow> prodSz stt d l (Suc j) = prodSz stt d l j * sizeFromTensorAtLvl stt d j"
  by (simp add: prodSz_def)

lemma prodSz_first: "l < j \<Longrightarrow> prodSz stt d l j = sizeFromTensorAtLvl stt d l * prodSz stt d (l + 1) j"
  by (simp add: prodSz_def upt_conv_Cons)

lemma numParents_cong:
  "lvlSize d' = lvlSize d \<Longrightarrow>
   (\<forall>i<j. isCompressedLvl stt i \<longrightarrow> crdMemSizeAtLvl stt d' i = crdMemSizeAtLvl stt d i) \<Longrightarrow>
   numParents stt d' j = numParents stt d j"
proof (induction j)
  case 0
  show ?case by simp
next
  case (Suc j)
  from Suc.IH[OF Suc.prems(1)] Suc.prems(2) have "numParents stt d' j = numParents stt d j" by simp
  with Suc.prems sizeFromTensorAtLvl_cong[OF Suc.prems(1), of stt j] show ?case by simp
qed

lemma numParents_cong_above:
  "isCompressedLvl stt k \<Longrightarrow> \<not> isDenseLvl stt k \<Longrightarrow> k < j \<Longrightarrow> lvlSize d' = lvlSize d \<Longrightarrow>
   (\<forall>i. k \<le> i \<and> i < j \<and> isCompressedLvl stt i \<longrightarrow> crdMemSizeAtLvl stt d' i = crdMemSizeAtLvl stt d i) \<Longrightarrow>
   numParents stt d' j = numParents stt d j"
proof (induction j)
  case 0
  then show ?case by simp
next
  case (Suc j)
  show ?case
  proof (cases "k = j")
    case True
    with Suc.prems show ?thesis by simp
  next
    case False
    with Suc.prems(3) have kj: "k < j" by simp
    from Suc.IH[OF Suc.prems(1,2) kj Suc.prems(4)] Suc.prems(5)
    have "numParents stt d' j = numParents stt d j" by simp
    with Suc.prems kj sizeFromTensorAtLvl_cong[OF Suc.prems(4), of stt j] show ?thesis by simp
  qed
qed

lemma numParents_dense_run:
  "l \<le> j \<Longrightarrow> (\<forall>i. l \<le> i \<and> i < j \<longrightarrow> isDenseLvl stt i) \<Longrightarrow>
   numParents stt d j = numParents stt d l * prodSz stt d l j"
proof (induction j)
  case 0
  then show ?case by simp
next
  case (Suc j)
  show ?case
  proof (cases "l = Suc j")
    case True
    then show ?thesis by simp
  next
    case False
    with Suc.prems(1) have lj: "l \<le> j" by simp
    from Suc.IH[OF lj] Suc.prems(2) have "numParents stt d j = numParents stt d l * prodSz stt d l j" by simp
    moreover from Suc.prems(2) lj have "isDenseLvl stt j" by simp
    ultimately show ?thesis by (simp add: prodSz_Suc[OF lj])
  qed
qed

lemma reach_step:
  assumes "l < getLvlRank stt" "isDenseDLT (getLvlType stt l)"
  shows "reach stt l j = reach stt (l + 1) j"
proof
  assume r: "reach stt l j"
  then have "j \<noteq> l" using assms(2) by (auto simp: reach_def isCompressedDLT_def isDenseDLT_def)
  with r show "reach stt (l + 1) j" by (auto simp: reach_def)
next
  assume r: "reach stt (l + 1) j"
  have "isDenseDLT (getLvlType stt i)" if "l \<le> i \<and> i < j" for i
    using that r assms(2) by (cases "i = l") (auto simp: reach_def)
  with r show "reach stt l j" by (auto simp: reach_def)
qed

lemma reach_self:
  "l < getLvlRank stt \<Longrightarrow> isCompressedDLT (getLvlType stt l) \<Longrightarrow> reach stt l j = (j = l)"
proof -
  assume a: "l < getLvlRank stt" "isCompressedDLT (getLvlType stt l)"
  have "j = l" if r: "reach stt l j"
  proof (rule ccontr)
    assume "j \<noteq> l"
    with r have "l \<le> l \<and> l < j" by (auto simp: reach_def)
    with r have "isDenseDLT (getLvlType stt l)" unfolding reach_def by blast
    with a(2) show False by (simp add: isCompressedDLT_def isDenseDLT_def)
  qed
  moreover have "reach stt l l" using a by (auto simp: reach_def)
  ultimately show ?thesis by blast
qed

lemma reach_singleton:
  assumes "l < getLvlRank stt" "isSingletonDLT (getLvlType stt l)"
  shows "\<not> reach stt l j"
proof
  assume r: "reach stt l j"
  show False
  proof (cases "j = l")
    case True
    with r assms(2) show False by (simp add: reach_def isCompressedDLT_def isSingletonDLT_def)
  next
    case False
    with r have "l \<le> l \<and> l < j" by (auto simp: reach_def)
    with r have "isDenseDLT (getLvlType stt l)" unfolding reach_def by blast
    with assms(2) show False by (simp add: isSingletonDLT_def isDenseDLT_def)
  qed
qed

lemma reach_end: "\<not> l < getLvlRank stt \<Longrightarrow> \<not> reach stt l j"
  unfolding reach_def by auto

lemma allocSchemeLoop_pos:
  "allocSchemeLoop stt d lin l = Some d' \<Longrightarrow>
   memRef d' (PosMemRef j) =
     (if reach stt l j
      then fst (push_back (memSize d (PosMemRef j)) (memRef d (PosMemRef j)) 0 (lin * prodSz stt d l j))
      else memRef d (PosMemRef j))
   \<and> memSize d' (PosMemRef j) =
     (if reach stt l j then memSize d (PosMemRef j) + lin * prodSz stt d l j
      else memSize d (PosMemRef j))"
proof (induction stt d lin l rule: allocSchemeLoop.induct)
  case (1 stt desc linear l)
  note step = "1.prems"[unfolded allocSchemeLoop.simps[of stt desc linear l]]
  show ?case
  proof (cases "l < getLvlRank stt")
    case False
    with step reach_end[OF False, of j] show ?thesis
      by (auto simp: createPushback_memRef_other createPushback_memSize)
  next
    case lt: True
    show ?thesis
    proof (cases "isCompressedDLT (getLvlType stt l)")
      case True
      with lt step have d': "d' = createPushback stt desc (PosMemRef l) 0 linear" by simp
      show ?thesis
        using createPushback_memRef_same[of stt desc "PosMemRef l" 0 linear]
        by (simp add: reach_self[OF lt True] d' createPushback_memRef_other createPushback_memSize)
    next
      case nc: False
      show ?thesis
      proof (cases "isSingletonDLT (getLvlType stt l)")
        case True
        with lt nc step reach_singleton[OF lt True, of j] show ?thesis by simp
      next
        case ns: False
        with lt nc step have dn: "isDenseDLT (getLvlType stt l)"
          and r: "allocSchemeLoop stt desc (linear * sizeFromTensorAtLvl stt desc l) (l + 1) = Some d'"
          by (auto split: if_splits)
        note ih = "1.IH"[OF lt nc ns dn r]
        show ?thesis
        proof (cases "reach stt (l + 1) j")
          case True
          then have "l < j" by (simp add: reach_def)
          from prodSz_first[OF this, of stt desc]
          have pr: "linear * sizeFromTensorAtLvl stt desc l * prodSz stt desc (l + 1) j
             = linear * prodSz stt desc l j" by (simp only: mult.assoc)
          from ih[unfolded pr] True show ?thesis by (simp only: reach_step[OF lt dn] if_True)
        next
          case False
          with ih show ?thesis by (simp only: reach_step[OF lt dn] if_False)
        qed
      qed
    qed
  qed
qed

lemma genCompressedAppend_pos_other:
  assumes "genCompressedAppend stt d1 c p l msz = Some (d', q)" "j \<noteq> l"
  shows "memRef d' (PosMemRef j) =
     (if reach stt (l + 1) j
      then fst (push_back (memSize d1 (PosMemRef j)) (memRef d1 (PosMemRef j)) 0 (prodSz stt d1 (l + 1) j))
      else memRef d1 (PosMemRef j))
   \<and> memSize d' (PosMemRef j) =
     (if reach stt (l + 1) j then memSize d1 (PosMemRef j) + prodSz stt d1 (l + 1) j
      else memSize d1 (PosMemRef j))"
proof -
  from assms(1) obtain d2 where d2: "storeField d1 (PosMemRef l) (p + 1) (msz + 1) = Some d2"
    and d': "(if l + 1 < getLvlRank stt
        then allocSchemeForRank stt (createPushback stt d2 (CrdMemRef l) (c ! l) 1) (l + 1)
        else Some (createPushback stt d2 (CrdMemRef l) (c ! l) 1)) = Some d'"
    by (cases rule: genCompressedAppend_cases) auto
  let ?d3 = "createPushback stt d2 (CrdMemRef l) (c ! l) 1"
  have d3: "memRef ?d3 (PosMemRef j) = memRef d1 (PosMemRef j)"
     "memSize ?d3 (PosMemRef j) = memSize d1 (PosMemRef j)"
     "lvlSize ?d3 = lvlSize d1"
    using assms(2) storeField_memRef[OF d2, of "PosMemRef j"] storeField_memSize[OF d2]
      storeField_lvlSize[OF d2]
    by (simp_all add: createPushback_memRef_other createPushback_memSize)
  show ?thesis
  proof (cases "l + 1 < getLvlRank stt")
    case True
    with d' have a: "allocSchemeLoop stt ?d3 1 (l + 1) = Some d'" by (simp add: allocSchemeForRank_def)
    from allocSchemeLoop_pos[OF a, of j] show ?thesis
      by (simp only: d3 prodSz_cong[OF d3(3)] mult_1)
  next
    case False
    with d' have "d' = ?d3" by simp
    with d3 reach_end[OF False, of j] show ?thesis by simp
  qed
qed

lemma genCompressed_effect:
  assumes "genCompressed stt d c p l = Some (d', q)"
  obtains (present) "d' = d" "isUniqueLvl stt l" "p + 1 < length (memRef d (PosMemRef l))"
      "memRef d (PosMemRef l) ! p < memRef d (PosMemRef l) ! (p + 1)"
      "q = memRef d (PosMemRef l) ! (p + 1) - 1"
      "crdIdx stt l (memRef d (PosMemRef l) ! (p + 1)) < length (memRef d (CrdMemRef (crdLvl stt l)))"
      "memRef d (CrdMemRef (crdLvl stt l)) ! crdIdx stt l (memRef d (PosMemRef l) ! (p + 1)) = c ! l"
  | (absent) a where
      "a = (if memRef d (PosMemRef l) ! p < memRef d (PosMemRef l) ! (p + 1) \<or> l = 0
            then memRef d (PosMemRef l) ! p else crdMemSizeAtLvl stt d l)"
      "p + 1 < length (memRef d (PosMemRef l))"
      "q = crdMemSizeAtLvl stt d l"
      "lvlSize d' = lvlSize d"
      "memRef d' (PosMemRef l) = (memRef d (PosMemRef l))[p := a, p + 1 := crdMemSizeAtLvl stt d l + 1]"
      "memSize d' (PosMemRef l) = memSize d (PosMemRef l)"
      "\<And>k. memSize d' (CrdMemRef k) =
            (if k = crdLvl stt l then memSize d (CrdMemRef k) + 1 else memSize d (CrdMemRef k))"
      "memRef d' (CrdMemRef (crdLvl stt l)) =
         fst (push_back (memSize d (CrdMemRef (crdLvl stt l))) (memRef d (CrdMemRef (crdLvl stt l))) (c ! l) 1)"
      "\<And>k. k \<noteq> crdLvl stt l \<Longrightarrow> memRef d' (CrdMemRef k) = memRef d (CrdMemRef k)"
      "\<And>j. j \<noteq> l \<Longrightarrow> memRef d' (PosMemRef j) =
         (if reach stt (l + 1) j
          then fst (push_back (memSize d (PosMemRef j)) (memRef d (PosMemRef j)) 0 (prodSz stt d (l + 1) j))
          else memRef d (PosMemRef j))
       \<and> memSize d' (PosMemRef j) =
         (if reach stt (l + 1) j then memSize d (PosMemRef j) + prodSz stt d (l + 1) j
          else memSize d (PosMemRef j))"
  using assms(1)
proof (cases rule: genCompressed_cases)
  case (present pstart pstop)
  from present(3,4) have ld: "p + 1 < length (memRef d (PosMemRef l))"
     "pstart = memRef d (PosMemRef l) ! p" "pstop = memRef d (PosMemRef l) ! (p + 1)"
    by (auto simp: genLoad_def split: if_splits)
  from present(5,6) have "genLoad (memRef d (CrdMemRef (crdLvl stt l))) (crdIdx stt l pstop) = Some (c ! l)"
    by (auto simp: genCompressedLookup_eq)
  then have "crdIdx stt l pstop < length (memRef d (CrdMemRef (crdLvl stt l)))"
     "memRef d (CrdMemRef (crdLvl stt l)) ! (crdIdx stt l pstop) = c ! l"
    by (auto simp: genLoad_def split: if_splits)
  note cx = this[unfolded ld(3)]
  show ?thesis
    by (rule that(1)[OF present(8) present(7) ld(1) present(6)[unfolded ld(2) ld(3)]
          present(9)[unfolded ld(3)] cx])
next
  case (absent pstart pstop d1 b)
  from absent(3,4) have ld: "p + 1 < length (memRef d (PosMemRef l))"
     "pstart = memRef d (PosMemRef l) ! p" "pstop = memRef d (PosMemRef l) ! (p + 1)"
    by (auto simp: genLoad_def split: if_splits)
  note lf = genCompressedLookup_frame[OF absent(5)]
  note af = genCompressedAppend_frame[OF absent(7)]
  note ap = genCompressedAppend_pos_other[OF absent(7)]
  define a where "a = (if memRef d (PosMemRef l) ! p < memRef d (PosMemRef l) ! (p + 1) \<or> l = 0
            then memRef d (PosMemRef l) ! p else crdMemSizeAtLvl stt d l)"
  have p1: "memRef d1 (PosMemRef l) = (memRef d (PosMemRef l))[p := a]"
    using lf(4) ld by (simp add: a_def)
  show ?thesis
  proof (rule that(2)[of a])
    show "a = (if memRef d (PosMemRef l) ! p < memRef d (PosMemRef l) ! (p + 1) \<or> l = 0
            then memRef d (PosMemRef l) ! p else crdMemSizeAtLvl stt d l)" by (rule a_def)
    show "p + 1 < length (memRef d (PosMemRef l))" by (rule ld(1))
    show "q = crdMemSizeAtLvl stt d l" by (rule af(1))
    show "lvlSize d' = lvlSize d" using af(2) lf(1) by simp
    show "memRef d' (PosMemRef l) = (memRef d (PosMemRef l))[p := a, p + 1 := crdMemSizeAtLvl stt d l + 1]"
      using af(8) p1 by simp
    show "memSize d' (PosMemRef l) = memSize d (PosMemRef l)" using af(6)[of l] lf(2) by simp
    show "\<And>k. memSize d' (CrdMemRef k) =
            (if k = crdLvl stt l then memSize d (CrdMemRef k) + 1 else memSize d (CrdMemRef k))"
      using af(3) lf(2) by simp
    show "memRef d' (CrdMemRef (crdLvl stt l)) =
         fst (push_back (memSize d (CrdMemRef (crdLvl stt l))) (memRef d (CrdMemRef (crdLvl stt l))) (c ! l) 1)"
      using af(4) lf(2) lf(3)[of "CrdMemRef (crdLvl stt l)"] by simp
    show "\<And>k. k \<noteq> crdLvl stt l \<Longrightarrow> memRef d' (CrdMemRef k) = memRef d (CrdMemRef k)"
      using af(5) lf(3) by simp
    show "\<And>j. j \<noteq> l \<Longrightarrow> memRef d' (PosMemRef j) =
         (if reach stt (l + 1) j
          then fst (push_back (memSize d (PosMemRef j)) (memRef d (PosMemRef j)) 0 (prodSz stt d (l + 1) j))
          else memRef d (PosMemRef j))
       \<and> memSize d' (PosMemRef j) =
         (if reach stt (l + 1) j then memSize d (PosMemRef j) + prodSz stt d (l + 1) j
          else memSize d (PosMemRef j))"
      using ap lf(2) lf(3) prodSz_cong[OF lf(1)] by simp
  qed
qed

lemma tracked_le: "tracked stt \<le> getLvlRank stt"
  by (simp add: tracked_def getLvlRank_def length_takeWhile_le)

lemma tracked_not_singleton:
  "l < tracked stt \<Longrightarrow> \<not> isSingletonDLT (getLvlType stt l)"
  unfolding tracked_def getLvlType_def
  using nth_length_takeWhile[of "\<lambda>dlt. \<not> isSingletonDLT dlt" "lvlTypes stt"]
        takeWhile_nth[of l "\<lambda>dlt. \<not> isSingletonDLT dlt" "lvlTypes stt"]
        nth_mem[of l "takeWhile (\<lambda>dlt. \<not> isSingletonDLT dlt) (lvlTypes stt)"]
        set_takeWhileD[of "lvlTypes stt ! l" "\<lambda>dlt. \<not> isSingletonDLT dlt" "lvlTypes stt"]
  by auto

lemma after_cooStart_singleton:
  assumes "posLayout stt" "cooStart stt < k" "k < getLvlRank stt"
  shows "isSingletonDLT (getLvlType stt k)"
proof -
  have "lvlTypes stt ! k = drop (cooStart stt + 1) (lvlTypes stt) ! (k - (cooStart stt + 1))"
    using assms(2,3) by (simp add: getLvlRank_def)
  moreover have "k - (cooStart stt + 1) < length (drop (cooStart stt + 1) (lvlTypes stt))"
    using assms(2,3) by (simp add: getLvlRank_def)
  ultimately have "lvlTypes stt ! k \<in> set (drop (cooStart stt + 1) (lvlTypes stt))"
    by (metis nth_mem)
  with assms(1) show ?thesis by (simp add: posLayout_def list_all_iff getLvlType_def)
qed

lemma own_crd:
  assumes "posLayout stt" "l + 1 < tracked stt"
  shows "crdLvl stt l = l" "snd (getCrdMemRefIndexAndStride stt l) = 1"
    "crdMemSizeAtLvl stt e l = memSize e (CrdMemRef l)"
proof -
  have "l < cooStart stt"
  proof (rule ccontr)
    assume "\<not> l < cooStart stt"
    then have "cooStart stt < l + 1" by simp
    from after_cooStart_singleton[OF assms(1) this] assms(2) tracked_le[of stt]
      tracked_not_singleton[OF assms(2)]
    show False by simp
  qed
  then show "crdLvl stt l = l" "snd (getCrdMemRefIndexAndStride stt l) = 1"
    by (simp_all add: crdLvl_def getCrdMemRefIndexAndStride_def)
  then show "crdMemSizeAtLvl stt e l = memSize e (CrdMemRef l)"
    by (simp add: crdMemSizeAtLvl_eq)
qed

lemma compressed_crdLvl:
  assumes "posLayout stt" "l < getLvlRank stt" "isCompressedDLT (getLvlType stt l)"
  shows "crdLvl stt l = l"
proof (cases "cooStart stt < l")
  case True
  from after_cooStart_singleton[OF assms(1) True assms(2)] assms(3) show ?thesis
    by (simp add: isSingletonDLT_def isCompressedDLT_def)
next
  case False
  then show ?thesis by (auto simp: crdLvl_def)
qed

lemma compressed_stride:
  assumes "posLayout stt" "l < getLvlRank stt" "isCompressedDLT (getLvlType stt l)"
    "snd (getCrdMemRefIndexAndStride stt l) > 1"
  shows "cooStart stt = l" "snd (getCrdMemRefIndexAndStride stt l) = getLvlRank stt - l"
proof -
  from assms(4) have c: "cooStart stt \<le> l"
    by (auto simp: getCrdMemRefIndexAndStride_def split: if_splits)
  from compressed_crdLvl[OF assms(1-3)] c assms(2) show "cooStart stt = l"
    by (auto simp: crdLvl_def split: if_splits)
  with assms(2) show "snd (getCrdMemRefIndexAndStride stt l) = getLvlRank stt - l"
    by (simp add: getCrdMemRefIndexAndStride_def)
qed

lemma level_cases:
  assumes "posLayout stt" "l < getLvlRank stt"
  obtains (dense) "isDenseDLT (getLvlType stt l)" "\<not> isCompressedDLT (getLvlType stt l)"
      "\<not> isSingletonDLT (getLvlType stt l)"
  | (compressed) "isCompressedDLT (getLvlType stt l)" "\<not> isDenseDLT (getLvlType stt l)"
      "\<not> isSingletonDLT (getLvlType stt l)"
  | (singleton) "isSingletonDLT (getLvlType stt l)" "\<not> isDenseDLT (getLvlType stt l)"
      "\<not> isCompressedDLT (getLvlType stt l)"
proof -
  from assms have "\<not> isCompressedWithHiDLT (getLvlType stt l)"
    by (simp add: posLayout_def list_all_length getLvlRank_def getLvlType_def)
  then show ?thesis
    using that
    by (cases "levelFormat (getLvlType stt l)")
       (simp_all add: isCompressedWithHiDLT_def isDenseDLT_def isCompressedDLT_def isSingletonDLT_def)
qed

lemma lvlInv_cong:
  assumes "K' j = K j" "j + 1 < tracked stt \<Longrightarrow> lc' ! j = lc ! j" "bnd stt e l' j = bnd stt e l j"
  shows "lvlInv stt e K' lc' l' j = lvlInv stt e K lc l j"
  using assms by (auto simp: lvlInv_def)

lemma linked_cong:
  assumes "K' j = K j" "lc' ! j = lc ! j" "lvlSize e' = lvlSize e"
    "memSize e' (CrdMemRef j) = memSize e (CrdMemRef j)"
  shows "linked stt e' K' lc' j v = linked stt e K lc j v"
  using assms sizeFromTensorAtLvl_cong[OF assms(3), of stt j] by (simp add: linked_def link_def)

lemma bnd_not_after:
  assumes "posLayout stt" "j < getLvlRank stt" "isCompressedDLT (getLvlType stt j)"
    "l < getLvlRank stt" "\<not> isSingletonDLT (getLvlType stt l)" "j \<noteq> l"
  shows "bnd stt e (l + 1) j = crdMemSizeAtLvl stt e j" "bnd stt e l j = crdMemSizeAtLvl stt e j"
proof -
  have "\<not> (snd (getCrdMemRefIndexAndStride stt j) > 1 \<and> j < l + 1)"
  proof
    assume a: "snd (getCrdMemRefIndexAndStride stt j) > 1 \<and> j < l + 1"
    with assms(6) have "j < l" by simp
    with compressed_stride(1)[OF assms(1-3)] a have "cooStart stt < l" by simp
    from after_cooStart_singleton[OF assms(1) this assms(4)] assms(5) show False by simp
  qed
  then show "bnd stt e (l + 1) j = crdMemSizeAtLvl stt e j" "bnd stt e l j = crdMemSizeAtLvl stt e j"
    by (auto simp: bnd_def)
qed

lemma lexLe_drop:
  assumes "lexLe (drop l lc) (drop l c)" "l < length lc" "l < length c"
  shows "lc ! l < c ! l \<or> lc ! l = c ! l \<and> lexLe (drop (l + 1) lc) (drop (l + 1) c)"
proof -
  have "drop l lc = lc ! l # drop (l + 1) lc" "drop l c = c ! l # drop (l + 1) c"
    using assms(2,3) by (simp_all add: Cons_nth_drop_Suc)
  with assms(1) show ?thesis by simp
qed

lemma midInv_dense:
  assumes m: "midInv stt e K lc c l p" and sch: "posLayout stt"
    and lt: "l < getLvlRank stt" and dn: "isDenseDLT (getLvlType stt l)"
    and inb: "c ! l < sizeFromTensorAtLvl stt e l"
  shows "midInv stt e (K(l := p + 1)) (lc[l := c ! l]) c (l + 1)
           (sizeFromTensorAtLvl stt e l * p + c ! l)"
proof -
  let ?K = "K(l := p + 1)" and ?lc = "lc[l := c ! l]"
  let ?sz = "sizeFromTensorAtLvl stt e l"
  let ?p = "?sz * p + c ! l"
  from m have len: "length lc = getLvlRank stt" "length c = getLvlRank stt"
    and k0: "K 0 \<le> 1" and p0: "l = 0 \<longrightarrow> p = 0"
    and A: "\<And>j. j < tracked stt \<Longrightarrow> isCompressedLvl stt j \<Longrightarrow> lvlInv stt e K lc l j"
    and L: "\<And>j. j + 1 < tracked stt \<Longrightarrow> j + 1 \<noteq> l \<Longrightarrow> linked stt e K lc j (K (j + 1))"
    and PL: "0 < l \<Longrightarrow> l < tracked stt \<Longrightarrow> linked stt e K lc (l - 1) (p + 1)"
    and MD: "l < tracked stt \<Longrightarrow> p < numParents stt e l
          \<and> (K l \<le> p \<or> p + 1 = K l \<and> lexLe (drop l lc) (drop l c))"
    by (auto simp: midInv_def)
  have dl: "isDenseLvl stt l" "\<not> isCompressedLvl stt l"
    using dn by (simp_all add: isDenseLvl_def isCompressedLvl_def isDenseDLT_def isCompressedDLT_def)
  have ns: "\<not> isSingletonDLT (getLvlType stt l)"
    using dn by (simp add: isDenseDLT_def isSingletonDLT_def)
  have A': "lvlInv stt e ?K ?lc (l + 1) j" if "j < tracked stt" "isCompressedLvl stt j" for j
  proof -
    from that dl have jl: "j \<noteq> l" by auto
    from that have cj: "isCompressedDLT (getLvlType stt j)" by (simp add: isCompressedLvl_def)
    from that(1) tracked_le[of stt] have jn: "j < getLvlRank stt" by simp
    note b = bnd_not_after[OF sch jn cj lt ns jl, of e]
    have "lvlInv stt e ?K ?lc (l + 1) j = lvlInv stt e K lc l j"
      by (rule lvlInv_cong) (use jl b in simp_all)
    with A[OF that] show ?thesis by simp
  qed
  have L': "linked stt e ?K ?lc j (?K (j + 1))" if "j + 1 < tracked stt" "j + 1 \<noteq> l + 1" for j
  proof (cases "j + 1 = l")
    case True
    then have l0: "0 < l" and jl: "j = l - 1" "j \<noteq> l" by simp_all
    from True that have "l < tracked stt" by simp
    from PL[OF l0 this] have "linked stt e K lc j (p + 1)" by (simp add: jl)
    moreover have "linked stt e ?K ?lc j (p + 1) = linked stt e K lc j (p + 1)"
      by (rule linked_cong) (use jl in simp_all)
    ultimately show ?thesis using True by simp
  next
    case False
    with that have jl: "j \<noteq> l" by simp
    have "linked stt e ?K ?lc j (K (j + 1)) = linked stt e K lc j (K (j + 1))"
      by (rule linked_cong) (use jl in simp_all)
    with L[OF that(1) False] False show ?thesis by simp
  qed
  have PL': "linked stt e ?K ?lc l (?p + 1)"
    using dl inb lt len by (simp add: linked_def link_def)
  have MD': "?p < numParents stt e (l + 1)
          \<and> (?K (l + 1) \<le> ?p \<or> ?p + 1 = ?K (l + 1) \<and> lexLe (drop (l + 1) ?lc) (drop (l + 1) c))"
    if t: "l + 1 < tracked stt"
  proof -
    from t have tl: "l < tracked stt" by simp
    from MD[OF tl] have pn: "p < numParents stt e l"
      and md: "K l \<le> p \<or> p + 1 = K l \<and> lexLe (drop l lc) (drop l c)" by simp_all
    have "?sz * p + c ! l < ?sz * (p + 1)" using inb by simp
    also have "\<dots> \<le> ?sz * numParents stt e l" using pn by (intro mult_le_mono2) simp
    finally have b: "?p < numParents stt e (l + 1)" using dl by (simp add: mult.commute)
    from L[OF t] have lk: "link stt e K lc l = K (l + 1)"
      and sd: "0 < K l \<longrightarrow> lc ! l < ?sz" using dl by (simp_all add: linked_def)
    have kk: "K (l + 1) = (if K l = 0 then 0 else ?sz * (K l - 1) + lc ! l + 1)"
      using lk dl by (simp add: link_def)
    have dr: "drop (l + 1) ?lc = drop (l + 1) lc" by simp
    from md have "K (l + 1) \<le> ?p \<or> ?p + 1 = K (l + 1) \<and> lexLe (drop (l + 1) lc) (drop (l + 1) c)"
    proof
      assume gt: "K l \<le> p"
      show ?thesis
      proof (cases "K l = 0")
        case True
        with kk show ?thesis by simp
      next
        case False
        with sd have s: "lc ! l < ?sz" by simp
        from False kk have "K (l + 1) = ?sz * (K l - 1) + lc ! l + 1" by simp
        also have "\<dots> \<le> ?sz * (K l - 1) + ?sz" using s by simp
        also have "\<dots> = ?sz * K l" using False by (cases "K l") simp_all
        also have "\<dots> \<le> ?sz * p" using gt by (intro mult_le_mono2)
        finally show ?thesis by simp
      qed
    next
      assume eq: "p + 1 = K l \<and> lexLe (drop l lc) (drop l c)"
      then have kl: "K l = p + 1" by simp
      with kk have k1: "K (l + 1) = ?sz * p + lc ! l + 1" by simp
      from lexLe_drop[of l lc c] eq lt len
      have "lc ! l < c ! l \<or> lc ! l = c ! l \<and> lexLe (drop (l + 1) lc) (drop (l + 1) c)" by simp
      then show ?thesis
      proof
        assume "lc ! l < c ! l"
        with k1 show ?thesis by simp
      next
        assume "lc ! l = c ! l \<and> lexLe (drop (l + 1) lc) (drop (l + 1) c)"
        with k1 show ?thesis by simp
      qed
    qed
    with b dr show ?thesis by simp
  qed
  have k0': "?K 0 \<le> 1" using k0 p0 by simp
  show ?thesis
    unfolding midInv_def
    using len k0' A' L' PL' MD' by (simp del: fun_upd_apply)
qed

lemma own_lt_cooStart:
  assumes "posLayout stt" "l + 1 < tracked stt"
  shows "l < cooStart stt"
proof (rule ccontr)
  assume "\<not> l < cooStart stt"
  then have "cooStart stt < l + 1" by simp
  from after_cooStart_singleton[OF assms(1) this] assms(2) tracked_le[of stt]
    tracked_not_singleton[OF assms(2)]
  show False by simp
qed

lemma lvlInv_frame:
  assumes "memRef e1 (PosMemRef j) = memRef e (PosMemRef j)"
    "memSize e1 (PosMemRef j) = memSize e (PosMemRef j)"
    "numParents stt e1 j = numParents stt e j"
    "bnd stt e1 l1 j = bnd stt e l j"
    "j + 1 < tracked stt \<Longrightarrow> memRef e1 (CrdMemRef j) = memRef e (CrdMemRef j)
         \<and> memSize e1 (CrdMemRef j) = memSize e (CrdMemRef j)"
    "K1 j = K j" "j + 1 < tracked stt \<Longrightarrow> lc1 ! j = lc ! j"
  shows "lvlInv stt e1 K1 lc1 l1 j = lvlInv stt e K lc l j"
  using assms by (auto simp: lvlInv_def occupied_def)

lemma singleton_ge_tracked:
  "isSingletonDLT (getLvlType stt l) \<Longrightarrow> tracked stt \<le> l"
  using tracked_not_singleton[of l stt] by (cases "l < tracked stt") auto

lemma midInv_singleton:
  assumes m: "midInv stt e K lc c l p" and sch: "posLayout stt"
    and lt: "l < getLvlRank stt" and sg: "isSingletonDLT (getLvlType stt l)"
  shows "midInv stt (createPushback stt e (CrdMemRef l) (c ! l) 1) K (lc[l := c ! l]) c (l + 1) p"
proof -
  let ?e = "createPushback stt e (CrdMemRef l) (c ! l) 1"
  let ?lc = "lc[l := c ! l]"
  from m have len: "length lc = getLvlRank stt" "length c = getLvlRank stt"
    and k0: "K 0 \<le> 1"
    and A: "\<And>j. j < tracked stt \<Longrightarrow> isCompressedLvl stt j \<Longrightarrow> lvlInv stt e K lc l j"
    and L: "\<And>j. j + 1 < tracked stt \<Longrightarrow> j + 1 \<noteq> l \<Longrightarrow> linked stt e K lc j (K (j + 1))"
    by (auto simp: midInv_def)
  note tl = singleton_ge_tracked[OF sg]
  have lv: "lvlSize ?e = lvlSize e" by simp
  have posf: "\<And>j. memRef ?e (PosMemRef j) = memRef e (PosMemRef j)"
       "\<And>j. memSize ?e (PosMemRef j) = memSize e (PosMemRef j)"
    by (simp_all add: createPushback_memRef_other createPushback_memSize)
  have cl: "crdLvl stt l = l \<or> crdLvl stt l = cooStart stt \<and> cooStart stt \<le> l"
    by (auto simp: crdLvl_def)
  have own: "memRef ?e (CrdMemRef j) = memRef e (CrdMemRef j)
         \<and> memSize ?e (CrdMemRef j) = memSize e (CrdMemRef j)" if "j + 1 < tracked stt" for j
  proof -
    from own_lt_cooStart[OF sch that] that tl cl have "j \<noteq> crdLvl stt l" by auto
    then show ?thesis by (simp add: createPushback_memRef_other createPushback_memSize)
  qed
  have np: "numParents stt ?e j = numParents stt e j" if "j < tracked stt" for j
  proof (rule numParents_cong[OF lv], intro allI impI)
    fix i assume "i < j" "isCompressedLvl stt i"
    with that have "i + 1 < tracked stt" by simp
    from own_crd(3)[OF sch this] own[OF this]
    show "crdMemSizeAtLvl stt ?e i = crdMemSizeAtLvl stt e i" by simp
  qed
  have A': "lvlInv stt ?e K ?lc (l + 1) j" if "j < getLvlRank stt" "isCompressedLvl stt j"
      "j < tracked stt" for j
  proof -
    from that have cj: "isCompressedDLT (getLvlType stt j)" by (simp add: isCompressedLvl_def)
    note jt = that(3)
    with tl have jl: "j < l" by simp
    have b: "bnd stt ?e (l + 1) j = bnd stt e l j"
    proof (cases "snd (getCrdMemRefIndexAndStride stt j) > 1")
      case True
      note cs = compressed_stride[OF sch that(1) cj True]
      from cs(1) jl lt have "crdLvl stt l = j" by (simp add: crdLvl_def)
      moreover from cs(1) that(1) have "crdLvl stt j = j" by (simp add: crdLvl_def)
      ultimately have "memSize ?e (CrdMemRef (crdLvl stt j)) = memSize e (CrdMemRef (crdLvl stt j)) + 1"
        by (simp add: createPushback_memSize)
      with lt have ar: "memSize ?e (CrdMemRef (crdLvl stt j)) + (getLvlRank stt - (l + 1))
           = memSize e (CrdMemRef (crdLvl stt j)) + (getLvlRank stt - l)" by arith
      have c1: "snd (getCrdMemRefIndexAndStride stt j) > 1 \<and> j < l + 1"
        and c2: "snd (getCrdMemRefIndexAndStride stt j) > 1 \<and> j < l"
        using True jl by simp_all
      show ?thesis unfolding bnd_def by (simp only: c1 c2 if_True ar simp_thms)
    next
      case False
      have "crdLvl stt l \<noteq> j"
      proof
        assume x: "crdLvl stt l = j"
        with jl cl have "cooStart stt = j" by auto
        with that(1) have "snd (getCrdMemRefIndexAndStride stt j) = getLvlRank stt - j"
          by (simp add: getCrdMemRefIndexAndStride_def)
        with False jl lt show False by simp
      qed
      moreover have "crdLvl stt j = j" by (rule compressed_crdLvl[OF sch that(1) cj])
      ultimately show ?thesis using False
        by (simp add: bnd_def crdMemSizeAtLvl_eq createPushback_memSize)
    qed
    have "lvlInv stt ?e K ?lc (l + 1) j = lvlInv stt e K lc l j"
      by (rule lvlInv_frame) (use posf np[OF jt] b own jl in simp_all)
    with A[OF that(3) that(2)] show ?thesis by simp
  qed
  have A'': "lvlInv stt ?e K ?lc (l + 1) j" if "j < tracked stt" "isCompressedLvl stt j" for j
    using A'[OF _ that(2) that(1)] that(1) tracked_le[of stt] by simp
  have L': "linked stt ?e K ?lc j (K (j + 1))" if "j + 1 < tracked stt" for j
  proof -
    from that tl have jl: "j + 1 \<noteq> l" "j \<noteq> l" by simp_all
    note L[OF that this(1)]
    moreover have "linked stt ?e K ?lc j (K (j + 1)) = linked stt e K lc j (K (j + 1))"
      by (rule linked_cong) (use own[OF that] lv jl in simp_all)
    ultimately show ?thesis by simp
  qed
  show ?thesis
    unfolding midInv_def using len k0 A'' L' tl by simp
qed

lemma bnd_self: "bnd stt e l l = crdMemSizeAtLvl stt e l"
  by (simp add: bnd_def)

lemma bnd_after_ge:
  assumes "posLayout stt" "l < getLvlRank stt" "isCompressedDLT (getLvlType stt l)"
  shows "crdMemSizeAtLvl stt e l \<le> bnd stt e (l + 1) l"
proof (cases "snd (getCrdMemRefIndexAndStride stt l) > 1")
  case True
  then show ?thesis
    by (simp add: bnd_def crdMemSizeAtLvl_eq div_le_mono)
next
  case False
  then show ?thesis by (simp add: bnd_def)
qed

lemma compressed_flags:
  "isCompressedDLT (getLvlType stt l) \<Longrightarrow>
   isCompressedLvl stt l \<and> \<not> isDenseLvl stt l \<and> \<not> isSingletonDLT (getLvlType stt l)"
  by (simp add: isCompressedLvl_def isDenseLvl_def isCompressedDLT_def isDenseDLT_def isSingletonDLT_def)

lemma midInv_compressed_present:
  assumes m: "midInv stt e K lc c l p" and sch: "posLayout stt"
    and lt: "l < getLvlRank stt" and cp: "isCompressedDLT (getLvlType stt l)"
    and tl: "l < tracked stt"
    and pl: "p + 1 < length (memRef e (PosMemRef l))"
    and ne: "memRef e (PosMemRef l) ! p < memRef e (PosMemRef l) ! (p + 1)"
    and q: "q = memRef e (PosMemRef l) ! (p + 1) - 1"
    and cx: "memRef e (CrdMemRef (crdLvl stt l)) ! crdIdx stt l (memRef e (PosMemRef l) ! (p + 1)) = c ! l"
  shows "midInv stt e (K(l := p + 1)) (lc[l := c ! l]) c (l + 1) q"
proof -
  let ?lc = "lc[l := c ! l]"
  let ?raw = "memRef e (PosMemRef l)"
  let ?P = "occupied e (PosMemRef l)"
  let ?M = "memSize e (CrdMemRef l)"
  note fl = compressed_flags[OF cp]
  from m have len: "length lc = getLvlRank stt" "length c = getLvlRank stt"
    and k0: "K 0 \<le> 1" and p0: "l = 0 \<longrightarrow> p = 0"
    and A: "\<And>j. j < tracked stt \<Longrightarrow> isCompressedLvl stt j \<Longrightarrow> lvlInv stt e K lc l j"
    and L: "\<And>j. j + 1 < tracked stt \<Longrightarrow> j + 1 \<noteq> l \<Longrightarrow> linked stt e K lc j (K (j + 1))"
    and PL: "0 < l \<Longrightarrow> l < tracked stt \<Longrightarrow> linked stt e K lc (l - 1) (p + 1)"
    and MD: "l < tracked stt \<Longrightarrow> p < numParents stt e l
          \<and> (K l \<le> p \<or> p + 1 = K l \<and> lexLe (drop l lc) (drop l c))"
    by (auto simp: midInv_def)
  from A[OF tl] fl have Al: "lvlInv stt e K lc l l" by simp
  then have ms: "memSize e (PosMemRef l) = numParents stt e l + 1"
    and cap: "memSize e (PosMemRef l) \<le> length ?raw"
    and pi: "posInv ?P (K l) (crdMemSizeAtLvl stt e l)"
    and eqp: "l + 1 < tracked stt \<Longrightarrow> ?P ! K l = ?M
        \<and> (0 < ?M \<longrightarrow> memRef e (CrdMemRef l) ! (?M - 1) = lc ! l)"
    by (simp_all add: lvlInv_def bnd_self)
  from MD[OF tl] have pn: "p < numParents stt e l"
    and md: "K l \<le> p \<or> p + 1 = K l \<and> lexLe (drop l lc) (drop l c)" by simp_all
  have lP: "length ?P = memSize e (PosMemRef l)" using cap by (simp add: occupied_def)
  have pP: "p + 1 < length ?P" using pn ms lP by simp
  have nP: "?P ! p = ?raw ! p" "?P ! (p + 1) = ?raw ! (p + 1)"
    using pP lP by (simp_all add: occupied_def)
  from ne nP have nz: "?P ! (p + 1) \<noteq> 0" by simp
  from pi have za: "\<And>i. K l < i \<Longrightarrow> i < length ?P \<Longrightarrow> ?P ! i = 0" by (simp add: posInv_def)
  from za[of "p + 1"] nz pP have "\<not> K l < p + 1" by auto
  with md have kl: "K l = p + 1" and lx: "lexLe (drop l lc) (drop l c)" by auto
  have Kid: "K(l := p + 1) = K" using kl by (simp add: fun_upd_idem)
  have A': "lvlInv stt e K ?lc (l + 1) j" if "j < tracked stt" "isCompressedLvl stt j" for j
  proof (cases "j = l")
    case False
    from that have cj: "isCompressedDLT (getLvlType stt j)" by (simp add: isCompressedLvl_def)
    from that(1) tracked_le[of stt] have jn: "j < getLvlRank stt" by simp
    note b = bnd_not_after[OF sch jn cj lt _ False, of e]
    have "lvlInv stt e K ?lc (l + 1) j = lvlInv stt e K lc l j"
      by (rule lvlInv_cong) (use False b fl in simp_all)
    with A[OF that] show ?thesis by simp
  next
    case True
    have pi': "posInv ?P (K l) (bnd stt e (l + 1) l)"
      by (rule posInv_mono[OF pi bnd_after_ge[OF sch lt cp]])
    have e': "?P ! K l = ?M \<and> (0 < ?M \<longrightarrow> memRef e (CrdMemRef l) ! (?M - 1) = ?lc ! l)"
      if t: "l + 1 < tracked stt"
    proof -
      note o = own_crd(1,2)[OF sch t] own_crd(3)[OF sch t, of e]
      from eqp[OF t] have pk: "?P ! K l = ?M" by simp
      with kl nP have rM: "?raw ! (p + 1) = ?M" by simp
      from cx o rM have "memRef e (CrdMemRef l) ! (?M - 1) = c ! l" by simp
      with pk lt len show ?thesis by simp
    qed
    from Al pi' e' show ?thesis unfolding True lvlInv_def by simp
  qed
  have L': "linked stt e K ?lc j (K (j + 1))" if "j + 1 < tracked stt" "j + 1 \<noteq> l + 1" for j
  proof (cases "j + 1 = l")
    case True
    then have l0: "0 < l" and jl: "j = l - 1" "j \<noteq> l" by simp_all
    from PL[OF l0 tl] have "linked stt e K lc j (p + 1)" by (simp add: jl)
    moreover have "linked stt e K ?lc j (p + 1) = linked stt e K lc j (p + 1)"
      by (rule linked_cong) (use jl in simp_all)
    ultimately show ?thesis using True kl by simp
  next
    case False
    with that have jl: "j \<noteq> l" by simp
    have "linked stt e K ?lc j (K (j + 1)) = linked stt e K lc j (K (j + 1))"
      by (rule linked_cong) (use jl in simp_all)
    with L[OF that(1) False] show ?thesis by simp
  qed
  have rest: "linked stt e K ?lc l (q + 1) \<and> q < numParents stt e (l + 1)
          \<and> (K (l + 1) \<le> q \<or> q + 1 = K (l + 1) \<and> lexLe (drop (l + 1) ?lc) (drop (l + 1) c))"
    if t: "l + 1 < tracked stt"
  proof -
    note o = own_crd(1,2)[OF sch t] own_crd(3)[OF sch t, of e]
    from eqp[OF t] have pk: "?P ! K l = ?M"
      and cl: "0 < ?M \<longrightarrow> memRef e (CrdMemRef l) ! (?M - 1) = lc ! l" by simp_all
    with kl nP have rM: "?raw ! (p + 1) = ?M" by simp
    with ne have Mp: "0 < ?M" by simp
    with q rM have q1: "q + 1 = ?M" by simp
    have lk: "linked stt e K ?lc l (q + 1)"
      using fl q1 by (simp add: linked_def link_def)
    have np: "q < numParents stt e (l + 1)" using fl o(3) q1 by simp
    from L[OF t] fl have k1: "K (l + 1) = ?M" by (simp add: linked_def link_def)
    from cx o rM have "memRef e (CrdMemRef l) ! (?M - 1) = c ! l" by simp
    with cl Mp have same: "lc ! l = c ! l" by simp
    from lexLe_drop[OF lx] lt len same have "lexLe (drop (l + 1) lc) (drop (l + 1) c)" by simp
    then have "lexLe (drop (l + 1) ?lc) (drop (l + 1) c)" by simp
    with lk np k1 q1 show ?thesis by simp
  qed
  show ?thesis
    unfolding midInv_def Kid
    using len k0 A' L' rest by simp
qed

lemma bnd_after_absent:
  assumes "posLayout stt" "l < getLvlRank stt" "isCompressedDLT (getLvlType stt l)"
    "memSize e1 (CrdMemRef l) = memSize e (CrdMemRef l) + 1"
  shows "bnd stt e1 (l + 1) l = crdMemSizeAtLvl stt e l + 1"
proof (cases "snd (getCrdMemRefIndexAndStride stt l) > 1")
  case True
  note cs = compressed_stride[OF assms(1-3) True]
  note cl = compressed_crdLvl[OF assms(1-3)]
  define s where "s = getLvlRank stt - l"
  have s: "snd (getCrdMemRefIndexAndStride stt l) = s" unfolding s_def by (rule cs(2))
  have sp: "0 < s" using assms(2) by (simp add: s_def)
  have ar: "memSize e1 (CrdMemRef l) + (getLvlRank stt - (l + 1)) = memSize e (CrdMemRef l) + s"
    using assms(2,4) unfolding s_def by arith
  have c1: "1 < s \<and> l < l + 1" using True s by simp
  have "bnd stt e1 (l + 1) l = (memSize e (CrdMemRef l) + s) div s"
    unfolding bnd_def by (simp only: cl ar s c1 if_True simp_thms)
  also have "\<dots> = memSize e (CrdMemRef l) div s + 1"
    using sp div_add_self2[of s "memSize e (CrdMemRef l)"] by simp
  finally show ?thesis using True by (simp add: crdMemSizeAtLvl_eq cl s)
next
  case False
  note cl = compressed_crdLvl[OF assms(1-3)]
  from False show ?thesis by (simp add: bnd_def crdMemSizeAtLvl_eq cl assms(4))
qed

lemma not_reach_compressed_between:
  assumes "posLayout stt" "s \<le> j" "j < tracked stt" "isCompressedDLT (getLvlType stt j)"
    "\<not> reach stt s j"
  obtains i where "s \<le> i" "i < j" "isCompressedDLT (getLvlType stt i)"
proof -
  from assms(3) tracked_le[of stt] have jn: "j < getLvlRank stt" by simp
  from assms(2,4,5) jn obtain i where i: "s \<le> i" "i < j" "\<not> isDenseDLT (getLvlType stt i)"
    by (auto simp: reach_def)
  from i(2) assms(3) have it: "i < tracked stt" by simp
  with tracked_le[of stt] have "i < getLvlRank stt" by simp
  from level_cases[OF assms(1) this] i(3) tracked_not_singleton[OF it]
  have "isCompressedDLT (getLvlType stt i)" by metis
  with i that show ?thesis by blast
qed

lemma midInv_compressed_absent:
  assumes m: "midInv stt e K lc c l p" and sch: "posLayout stt"
    and lt: "l < getLvlRank stt" and cp: "isCompressedDLT (getLvlType stt l)"
    and tl: "l < tracked stt"
    and a: "a = (if memRef e (PosMemRef l) ! p < memRef e (PosMemRef l) ! (p + 1) \<or> l = 0
            then memRef e (PosMemRef l) ! p else crdMemSizeAtLvl stt e l)"
    and q: "q = crdMemSizeAtLvl stt e l"
    and lv: "lvlSize e1 = lvlSize e"
    and posl: "memRef e1 (PosMemRef l) = (memRef e (PosMemRef l))[p := a, p + 1 := crdMemSizeAtLvl stt e l + 1]"
    and mposl: "memSize e1 (PosMemRef l) = memSize e (PosMemRef l)"
    and mcrd: "\<And>k. memSize e1 (CrdMemRef k) =
            (if k = crdLvl stt l then memSize e (CrdMemRef k) + 1 else memSize e (CrdMemRef k))"
    and crdl: "memRef e1 (CrdMemRef (crdLvl stt l)) =
         fst (push_back (memSize e (CrdMemRef (crdLvl stt l))) (memRef e (CrdMemRef (crdLvl stt l))) (c ! l) 1)"
    and crdo: "\<And>k. k \<noteq> crdLvl stt l \<Longrightarrow> memRef e1 (CrdMemRef k) = memRef e (CrdMemRef k)"
    and poso: "\<And>j. j \<noteq> l \<Longrightarrow> memRef e1 (PosMemRef j) =
         (if reach stt (l + 1) j
          then fst (push_back (memSize e (PosMemRef j)) (memRef e (PosMemRef j)) 0 (prodSz stt e (l + 1) j))
          else memRef e (PosMemRef j))
       \<and> memSize e1 (PosMemRef j) =
         (if reach stt (l + 1) j then memSize e (PosMemRef j) + prodSz stt e (l + 1) j
          else memSize e (PosMemRef j))"
  shows "midInv stt e1 (K(l := p + 1)) (lc[l := c ! l]) c (l + 1) q"
proof -
  let ?K = "K(l := p + 1)" and ?lc = "lc[l := c ! l]"
  let ?raw = "memRef e (PosMemRef l)"
  let ?P = "occupied e (PosMemRef l)"
  let ?M = "memSize e (CrdMemRef l)"
  let ?msz = "crdMemSizeAtLvl stt e l"
  note fl = compressed_flags[OF cp]
  note cl = compressed_crdLvl[OF sch lt cp]
  from m have len: "length lc = getLvlRank stt" "length c = getLvlRank stt"
    and k0: "K 0 \<le> 1" and p0: "l = 0 \<longrightarrow> p = 0"
    and A: "\<And>j. j < tracked stt \<Longrightarrow> isCompressedLvl stt j \<Longrightarrow> lvlInv stt e K lc l j"
    and L: "\<And>j. j + 1 < tracked stt \<Longrightarrow> j + 1 \<noteq> l \<Longrightarrow> linked stt e K lc j (K (j + 1))"
    and PL: "0 < l \<Longrightarrow> l < tracked stt \<Longrightarrow> linked stt e K lc (l - 1) (p + 1)"
    and MD: "l < tracked stt \<Longrightarrow> p < numParents stt e l
          \<and> (K l \<le> p \<or> p + 1 = K l \<and> lexLe (drop l lc) (drop l c))"
    by (auto simp: midInv_def)
  from A[OF tl] fl have Al: "lvlInv stt e K lc l l" by simp
  then have ms: "memSize e (PosMemRef l) = numParents stt e l + 1"
    and cap: "memSize e (PosMemRef l) \<le> length ?raw"
    and pi: "posInv ?P (K l) ?msz"
    and z0: "l = 0 \<longrightarrow> ?P ! 0 = 0"
    by (simp_all add: lvlInv_def bnd_self)
  from MD[OF tl] have pn: "p < numParents stt e l" and kle: "K l \<le> p + 1" by auto
  have lP: "length ?P = memSize e (PosMemRef l)" using cap by (simp add: occupied_def)
  have pP: "p + 1 < length ?P" using pn ms lP by simp
  have nP: "?P ! p = ?raw ! p" using pP lP by (simp add: occupied_def)
  have mc: "memSize e1 (CrdMemRef l) = ?M + 1" using mcrd[of l] cl by simp
  have mco: "\<And>k. k \<noteq> l \<Longrightarrow> memSize e1 (CrdMemRef k) = memSize e (CrdMemRef k)"
    using mcrd cl by simp
  have crdo': "\<And>k. k \<noteq> l \<Longrightarrow> memRef e1 (CrdMemRef k) = memRef e (CrdMemRef k)"
    using crdo cl by simp
  have cmo: "crdMemSizeAtLvl stt e1 j = crdMemSizeAtLvl stt e j"
    if "j < getLvlRank stt" "isCompressedDLT (getLvlType stt j)" "j \<noteq> l" for j
    using compressed_crdLvl[OF sch that(1,2)] mco[OF that(3)] by (simp add: crdMemSizeAtLvl_eq)
  have np_le: "numParents stt e1 j = numParents stt e j" if "j \<le> l" for j
  proof (rule numParents_cong[OF lv], intro allI impI)
    fix i assume i: "i < j" "isCompressedLvl stt i"
    with that lt have "i < getLvlRank stt" "i \<noteq> l" by simp_all
    from cmo[OF this(1) _ this(2)] i(2)
    show "crdMemSizeAtLvl stt e1 i = crdMemSizeAtLvl stt e i" by (simp add: isCompressedLvl_def)
  qed
  have occ1: "occupied e1 (PosMemRef l) = ?P[p := a, p + 1 := ?msz + 1]"
    by (simp add: occupied_def posl mposl take_update_swap)
  have aa: "a = ?P ! p \<or> a = ?msz" using a nP by auto
  have pi1: "posInv (occupied e1 (PosMemRef l)) (p + 1) (bnd stt e1 (l + 1) l)"
    using posInv_step[OF pi kle pP aa] bnd_after_absent[OF sch lt cp mc] occ1 by simp
  have Al': "lvlInv stt e1 ?K ?lc (l + 1) l"
  proof -
    have s1: "memSize e1 (PosMemRef l) = numParents stt e1 l + 1"
      using mposl ms np_le[of l] by simp
    have s2: "memSize e1 (PosMemRef l) \<le> length (memRef e1 (PosMemRef l))"
      using mposl cap posl by simp
    have s3: "l = 0 \<longrightarrow> occupied e1 (PosMemRef l) ! 0 = 0"
    proof
      assume l0: "l = 0"
      with p0 have "p = 0" by simp
      with l0 a nP have "a = ?P ! 0" by simp
      with z0 l0 have a0: "a = 0" by simp
      have "0 < length ?P" using pP by (cases ?P) simp_all
      then have "(?P[p := a, p + 1 := ?msz + 1]) ! 0 = a"
        using \<open>p = 0\<close> by simp
      with a0 show "occupied e1 (PosMemRef l) ! 0 = 0" by (simp only: occ1)
    qed
    have s4: "occupied e1 (PosMemRef l) ! (p + 1) = memSize e1 (CrdMemRef l)
        \<and> (0 < memSize e1 (CrdMemRef l) \<longrightarrow>
             memRef e1 (CrdMemRef l) ! (memSize e1 (CrdMemRef l) - 1) = ?lc ! l)"
      if t: "l + 1 < tracked stt"
    proof -
      note o = own_crd(3)[OF sch t, of e]
      have "occupied e1 (PosMemRef l) ! (p + 1) = ?msz + 1" using pP by (simp add: occ1)
      moreover have "memRef e1 (CrdMemRef l) ! ?M = c ! l"
        using crdl cl push_back_nth_new[of ?M ?M 1 "memRef e (CrdMemRef l)" "c ! l"] by simp
      ultimately show ?thesis using mc o lt len by simp
    qed
    show ?thesis unfolding lvlInv_def using s1 s2 s3 s4 pi1 by simp
  qed
  have Ao: "lvlInv stt e1 ?K ?lc (l + 1) j"
    if jt: "j < tracked stt" and cj: "isCompressedLvl stt j" and jl: "j \<noteq> l" for j
  proof -
    from cj have cj': "isCompressedDLT (getLvlType stt j)" by (simp add: isCompressedLvl_def)
    from jt tracked_le[of stt] have jn: "j < getLvlRank stt" by simp
    note Aj = A[OF jt cj]
    have b: "bnd stt e1 (l + 1) j = bnd stt e l j"
      using bnd_not_after[OF sch jn cj' lt _ jl] fl cmo[OF jn cj' jl] by simp
    have cr: "memRef e1 (CrdMemRef j) = memRef e (CrdMemRef j)
         \<and> memSize e1 (CrdMemRef j) = memSize e (CrdMemRef j)"
      using crdo'[OF jl] mco[OF jl] by simp
    show ?thesis
    proof (cases "reach stt (l + 1) j")
      case False
      with poso[OF jl] have pf: "memRef e1 (PosMemRef j) = memRef e (PosMemRef j)"
        "memSize e1 (PosMemRef j) = memSize e (PosMemRef j)" by simp_all
      have np: "numParents stt e1 j = numParents stt e j"
      proof (cases "j < l")
        case True
        then show ?thesis by (intro np_le) simp
      next
        case nl: False
        with jl have lj: "l + 1 \<le> j" by simp
        from not_reach_compressed_between[OF sch lj jt cj' False]
        obtain i where i: "l + 1 \<le> i" "i < j" "isCompressedDLT (getLvlType stt i)" by blast
        note fi = compressed_flags[OF i(3)]
        show ?thesis
        proof (rule numParents_cong_above[of stt i j, OF _ _ i(2) lv], goal_cases)
          case 1 show ?case using fi by simp
        next
          case 2 show ?case using fi by simp
        next
          case 3
          show ?case
          proof (intro allI impI)
            fix i' assume "i \<le> i' \<and> i' < j \<and> isCompressedLvl stt i'"
            with i(1) jn have "i' < getLvlRank stt" "isCompressedDLT (getLvlType stt i')" "i' \<noteq> l"
              by (simp_all add: isCompressedLvl_def)
            from cmo[OF this] show "crdMemSizeAtLvl stt e1 i' = crdMemSizeAtLvl stt e i'" .
          qed
        qed
      qed
      have "lvlInv stt e1 ?K ?lc (l + 1) j = lvlInv stt e K lc l j"
        by (rule lvlInv_frame) (use pf np b cr jl in simp_all)
      with Aj show ?thesis by simp
    next
      case True
      then have lj: "l + 1 \<le> j" and dr: "\<forall>i. l + 1 \<le> i \<and> i < j \<longrightarrow> isDenseLvl stt i"
        by (simp_all add: reach_def isDenseLvl_def)
      from lj jt have t: "l + 1 < tracked stt" by simp
      note o = own_crd(3)[OF sch t]
      let ?pr = "prodSz stt e (l + 1) j"
      let ?Pj = "occupied e (PosMemRef j)"
      from Aj have msj: "memSize e (PosMemRef j) = numParents stt e j + 1"
        and capj: "memSize e (PosMemRef j) \<le> length (memRef e (PosMemRef j))"
        and pij: "posInv ?Pj (K j) (bnd stt e l j)"
        and eqj: "j + 1 < tracked stt \<longrightarrow> ?Pj ! K j = memSize e (CrdMemRef j)
          \<and> (0 < memSize e (CrdMemRef j) \<longrightarrow>
               memRef e (CrdMemRef j) ! (memSize e (CrdMemRef j) - 1) = lc ! j)"
        by (simp_all add: lvlInv_def)
      from True poso[OF jl] have pf:
        "memRef e1 (PosMemRef j) = fst (push_back (memSize e (PosMemRef j)) (memRef e (PosMemRef j)) 0 ?pr)"
        "memSize e1 (PosMemRef j) = memSize e (PosMemRef j) + ?pr" by simp_all
      have occj: "occupied e1 (PosMemRef j) = ?Pj @ replicate ?pr 0"
        using push_back_take[OF capj, of ?pr 0] by (simp add: occupied_def pf)
      have capj': "memSize e1 (PosMemRef j) \<le> length (memRef e1 (PosMemRef j))"
        using push_back_length_ge[of "memSize e (PosMemRef j)" ?pr "memRef e (PosMemRef j)" 0]
        by (simp add: pf)
      have n1: "numParents stt e1 j = numParents stt e1 (l + 1) * prodSz stt e1 (l + 1) j"
        by (rule numParents_dense_run[OF lj dr])
      have n0: "numParents stt e j = numParents stt e (l + 1) * ?pr"
        by (rule numParents_dense_run[OF lj dr])
      have "numParents stt e1 (l + 1) = ?M + 1" "numParents stt e (l + 1) = ?M"
        using fl o[of e1] o[of e] mc by simp_all
      with n1 n0 prodSz_cong[OF lv, of stt "l + 1" j]
      have np: "numParents stt e1 j = numParents stt e j + ?pr" by simp
      have kj: "K j < length ?Pj" using pij by (simp add: posInv_def)
      have s3: "posInv (occupied e1 (PosMemRef j)) (K j) (bnd stt e1 (l + 1) j)"
        using posInv_append[OF pij, of ?pr] occj b by simp
      have s4: "occupied e1 (PosMemRef j) ! K j = ?Pj ! K j"
        using kj by (simp add: occj nth_append)
      from lj have j0: "j \<noteq> 0" by simp
      show ?thesis
        unfolding lvlInv_def
        using pf(2) msj np capj' s3 s4 eqj cr jl j0 by simp
    qed
  qed
  have A': "lvlInv stt e1 ?K ?lc (l + 1) j" if "j < tracked stt" "isCompressedLvl stt j" for j
    using Al' Ao[OF that] by (cases "j = l") auto
  have L': "linked stt e1 ?K ?lc j (?K (j + 1))" if "j + 1 < tracked stt" "j + 1 \<noteq> l + 1" for j
  proof (cases "j + 1 = l")
    case True
    then have l0: "0 < l" and jl: "j = l - 1" "j \<noteq> l" by simp_all
    from PL[OF l0 tl] have "linked stt e K lc j (p + 1)" by (simp add: jl)
    moreover have "linked stt e1 ?K ?lc j (p + 1) = linked stt e K lc j (p + 1)"
      by (rule linked_cong) (use jl lv mco in simp_all)
    ultimately show ?thesis using True by simp
  next
    case False
    with that have jl: "j \<noteq> l" by simp
    have "linked stt e1 ?K ?lc j (K (j + 1)) = linked stt e K lc j (K (j + 1))"
      by (rule linked_cong) (use jl lv mco in simp_all)
    with L[OF that(1) False] False show ?thesis by simp
  qed
  have rest: "linked stt e1 ?K ?lc l (q + 1) \<and> q < numParents stt e1 (l + 1)
          \<and> ?K (l + 1) \<le> q"
    if t: "l + 1 < tracked stt"
  proof -
    note o = own_crd(3)[OF sch t]
    have lk: "linked stt e1 ?K ?lc l (q + 1)"
      using fl q o[of e] mc by (simp add: linked_def link_def)
    have np: "q < numParents stt e1 (l + 1)" using fl o[of e1] o[of e] mc q by simp
    from L[OF t] fl have "K (l + 1) = ?M" by (simp add: linked_def link_def)
    with q o[of e] have "?K (l + 1) \<le> q" by simp
    with lk np show ?thesis by simp
  qed
  have k0': "?K 0 \<le> 1" using k0 p0 by simp
  show ?thesis
    unfolding midInv_def
    using len k0' A' L' rest by (simp del: fun_upd_apply)
qed

lemma midInv_untracked_frame:
  assumes m: "midInv stt e K lc c l p" and sch: "posLayout stt"
    and lt: "l < getLvlRank stt" and ns: "\<not> isSingletonDLT (getLvlType stt l)"
    and ut: "tracked stt \<le> l"
    and lv: "lvlSize e1 = lvlSize e"
    and pf: "\<And>j. j < tracked stt \<Longrightarrow> memRef e1 (PosMemRef j) = memRef e (PosMemRef j)
                \<and> memSize e1 (PosMemRef j) = memSize e (PosMemRef j)
                \<and> memRef e1 (CrdMemRef j) = memRef e (CrdMemRef j)
                \<and> memSize e1 (CrdMemRef j) = memSize e (CrdMemRef j)"
  shows "midInv stt e1 K (lc[l := x]) c (l + 1) q"
proof -
  let ?lc = "lc[l := x]"
  from m have len: "length lc = getLvlRank stt" "length c = getLvlRank stt"
    and k0: "K 0 \<le> 1"
    and A: "\<And>j. j < tracked stt \<Longrightarrow> isCompressedLvl stt j \<Longrightarrow> lvlInv stt e K lc l j"
    and L: "\<And>j. j + 1 < tracked stt \<Longrightarrow> j + 1 \<noteq> l \<Longrightarrow> linked stt e K lc j (K (j + 1))"
    by (auto simp: midInv_def)
  have cm: "crdMemSizeAtLvl stt e1 j = crdMemSizeAtLvl stt e j"
    if "j < tracked stt" "isCompressedLvl stt j" for j
  proof -
    from that tracked_le[of stt] have jn: "j < getLvlRank stt" by simp
    from that have cj: "isCompressedDLT (getLvlType stt j)" by (simp add: isCompressedLvl_def)
    from compressed_crdLvl[OF sch jn cj] pf[OF that(1)] show ?thesis
      by (simp add: crdMemSizeAtLvl_eq)
  qed
  have np: "numParents stt e1 j = numParents stt e j" if "j < tracked stt" for j
  proof (rule numParents_cong[OF lv], intro allI impI)
    fix i assume "i < j" "isCompressedLvl stt i"
    with that cm[of i] show "crdMemSizeAtLvl stt e1 i = crdMemSizeAtLvl stt e i" by simp
  qed
  have A': "lvlInv stt e1 K ?lc (l + 1) j" if "j < tracked stt" "isCompressedLvl stt j" for j
  proof -
    from that tracked_le[of stt] have jn: "j < getLvlRank stt" by simp
    from that have cj: "isCompressedDLT (getLvlType stt j)" by (simp add: isCompressedLvl_def)
    from that(1) ut have jl: "j \<noteq> l" by simp
    have b: "bnd stt e1 (l + 1) j = bnd stt e l j"
      using bnd_not_after[OF sch jn cj lt ns jl] cm[OF that] by simp
    have "lvlInv stt e1 K ?lc (l + 1) j = lvlInv stt e K lc l j"
      by (rule lvlInv_frame) (use pf[OF that(1)] np[OF that(1)] b jl in simp_all)
    with A[OF that] show ?thesis by simp
  qed
  have L': "linked stt e1 K ?lc j (K (j + 1))" if "j + 1 < tracked stt" for j
  proof -
    from that ut have jl: "j + 1 \<noteq> l" "j \<noteq> l" "j < tracked stt" by simp_all
    note L[OF that jl(1)]
    moreover have "linked stt e1 K ?lc j (K (j + 1)) = linked stt e K lc j (K (j + 1))"
      by (rule linked_cong) (use pf[OF jl(3)] lv jl in simp_all)
    ultimately show ?thesis by simp
  qed
  show ?thesis
    unfolding midInv_def using len k0 A' L' ut by simp
qed

lemma midInv_compressed_untracked:
  assumes m: "midInv stt e K lc c l p" and sch: "posLayout stt"
    and lt: "l < getLvlRank stt" and cp: "isCompressedDLT (getLvlType stt l)"
    and ut: "tracked stt \<le> l"
    and g: "genCompressed stt e c p l = Some (e1, q)"
  shows "midInv stt e1 K (lc[l := c ! l]) c (l + 1) q \<and> lvlSize e1 = lvlSize e"
proof -
  note fl = compressed_flags[OF cp]
  note cl = compressed_crdLvl[OF sch lt cp]
  have fr: "lvlSize e1 = lvlSize e \<and> (\<forall>j < tracked stt.
        memRef e1 (PosMemRef j) = memRef e (PosMemRef j)
      \<and> memSize e1 (PosMemRef j) = memSize e (PosMemRef j)
      \<and> memRef e1 (CrdMemRef j) = memRef e (CrdMemRef j)
      \<and> memSize e1 (CrdMemRef j) = memSize e (CrdMemRef j))"
    using g
  proof (cases rule: genCompressed_effect)
    case present
    then show ?thesis by simp
  next
    case (absent a)
    have "memRef e1 (PosMemRef j) = memRef e (PosMemRef j)
      \<and> memSize e1 (PosMemRef j) = memSize e (PosMemRef j)
      \<and> memRef e1 (CrdMemRef j) = memRef e (CrdMemRef j)
      \<and> memSize e1 (CrdMemRef j) = memSize e (CrdMemRef j)" if "j < tracked stt" for j
    proof -
      from that ut have jl: "j \<noteq> l" "\<not> l + 1 \<le> j" by simp_all
      then have nr: "\<not> reach stt (l + 1) j" by (simp add: reach_def)
      from absent(10)[OF jl(1)] nr absent(7)[of j] absent(9)[of j] jl(1) cl
      show ?thesis by simp
    qed
    with absent(4) show ?thesis by simp
  qed
  from midInv_untracked_frame[OF m sch lt _ ut, of e1 "c ! l" q] fr fl
  show ?thesis by simp
qed

lemma midInv_compressed:
  assumes m: "midInv stt e K lc c l p" and sch: "posLayout stt"
    and lt: "l < getLvlRank stt" and cp: "isCompressedDLT (getLvlType stt l)"
    and tl: "l < tracked stt"
    and g: "genCompressed stt e c p l = Some (e1, q)"
  shows "midInv stt e1 (K(l := p + 1)) (lc[l := c ! l]) c (l + 1) q \<and> lvlSize e1 = lvlSize e"
  using g
proof (cases rule: genCompressed_effect)
  case present
  from midInv_compressed_present[OF m sch lt cp tl present(3,4,5,7)] present(1)
  show ?thesis by simp
next
  case (absent a)
  from midInv_compressed_absent[OF m sch lt cp tl absent(1,3,4,5,6,7,8,9,10)] absent(4)
  show ?thesis by simp
qed

lemma inBounds_cong: "lvlSize e1 = lvlSize e \<Longrightarrow> inBounds stt e1 c = inBounds stt e c"
  by (simp add: inBounds_def sizeFromTensorAtLvl_cong[of e1 e])

lemma inBoundsD:
  "inBounds stt e c \<Longrightarrow> l < getLvlRank stt \<Longrightarrow> isDenseDLT (getLvlType stt l) \<Longrightarrow>
   c ! l < sizeFromTensorAtLvl stt e l"
  by (auto simp: inBounds_def list_all_iff isDenseLvl_def)

lemma take_update_prefix:
  "take l lc = take l c \<Longrightarrow> l < length lc \<Longrightarrow> l < length c \<Longrightarrow>
   take (l + 1) (lc[l := c ! l]) = take (l + 1) c"
  by (simp add: take_Suc_conv_app_nth)

lemma genLevels_midInv:
  "genLevels stt c l p e = Some (e', q) \<Longrightarrow> posLayout stt \<Longrightarrow> midInv stt e K lc c l p \<Longrightarrow>
   inBounds stt e c \<Longrightarrow> l \<le> getLvlRank stt \<Longrightarrow> take l lc = take l c \<Longrightarrow>
   \<exists>K'. midInv stt e' K' c c (getLvlRank stt) q \<and> lvlSize e' = lvlSize e"
proof (induction stt c l p e arbitrary: K lc rule: genLevels.induct)
  case (1 stt coords l parentPos desc)
  note step = "1.prems"(1)[unfolded genLevels.simps[of stt coords l parentPos desc]]
  note sch = "1.prems"(2)
  note m = "1.prems"(3)
  note inb = "1.prems"(4)
  note pre = "1.prems"(6)
  from m have len: "length lc = getLvlRank stt" "length coords = getLvlRank stt"
    by (simp_all add: midInv_def)
  show ?case
  proof (cases "l < getLvlRank stt")
    case False
    with "1.prems"(5) have ln: "l = getLvlRank stt" by simp
    with pre len have lcc: "lc = coords" by simp
    from False step have "e' = desc" "q = parentPos" by simp_all
    with m ln lcc show ?thesis by (intro exI[of _ K]) simp
  next
    case lt: True
    then have le: "l + 1 \<le> getLvlRank stt" by simp
    note pre' = take_update_prefix[OF pre, unfolded len, OF lt lt]
    from sch lt show ?thesis
    proof (cases rule: level_cases)
      case compressed
      with lt step obtain d1 pnext where g: "genCompressed stt desc coords parentPos l = Some (d1, pnext)"
        and r: "genLevels stt coords (l + 1) pnext d1 = Some (e', q)"
        by (auto split: option.splits)
      have "\<exists>K1. midInv stt d1 K1 (lc[l := coords ! l]) coords (l + 1) pnext
          \<and> lvlSize d1 = lvlSize desc"
      proof (cases "l < tracked stt")
        case True
        from midInv_compressed[OF m sch lt compressed(1) True g] show ?thesis by blast
      next
        case False
        then have "tracked stt \<le> l" by simp
        from midInv_compressed_untracked[OF m sch lt compressed(1) this g] show ?thesis by blast
      qed
      then obtain K1 where m1: "midInv stt d1 K1 (lc[l := coords ! l]) coords (l + 1) pnext"
        and lv: "lvlSize d1 = lvlSize desc" by blast
      from inb inBounds_cong[OF lv] have inb1: "inBounds stt d1 coords" by simp
      from "1.IH"(1)[OF lt compressed(1) g refl r sch m1 inb1 le pre']
      obtain K' where "midInv stt e' K' coords coords (getLvlRank stt) q" "lvlSize e' = lvlSize d1"
        by blast
      with lv show ?thesis by (intro exI[of _ K']) simp
    next
      case singleton
      with lt step have r: "genLevels stt coords (l + 1) parentPos
             (createPushback stt desc (CrdMemRef l) (coords ! l) 1) = Some (e', q)" by simp
      note m1 = midInv_singleton[OF m sch lt singleton(1)]
      have "lvlSize (createPushback stt desc (CrdMemRef l) (coords ! l) 1) = lvlSize desc" by simp
      from inb inBounds_cong[OF this]
      have inb1: "inBounds stt (createPushback stt desc (CrdMemRef l) (coords ! l) 1) coords"
        by simp
      from "1.IH"(2)[OF lt singleton(3) singleton(1) r sch m1 inb1 le pre']
      obtain K' where "midInv stt e' K' coords coords (getLvlRank stt) q"
        "lvlSize e' = lvlSize (createPushback stt desc (CrdMemRef l) (coords ! l) 1)"
        by blast
      then show ?thesis by (intro exI[of _ K']) simp
    next
      case dense
      with lt step have r: "genLevels stt coords (l + 1)
             (sizeFromTensorAtLvl stt desc l * parentPos + coords ! l) desc = Some (e', q)"
        by simp
      note m1 = midInv_dense[OF m sch lt dense(1) inBoundsD[OF inb lt dense(1)]]
      from "1.IH"(3)[OF lt dense(2) dense(3) dense(1) r sch m1 inb le pre']
      show ?thesis .
    qed
  qed
qed

lemma bnd_0: "bnd stt e 0 j = crdMemSizeAtLvl stt e j"
  by (simp add: bnd_def)

lemma bnd_rank: "bnd stt e (getLvlRank stt) j = crdMemSizeAtLvl stt e j"
  by (simp add: bnd_def crdMemSizeAtLvl_eq)

lemma lvlInv_bnd_cong:
  "bnd stt e l' j = bnd stt e l j \<Longrightarrow> lvlInv stt e K lc l' j = lvlInv stt e K lc l j"
  by (simp add: lvlInv_def)

lemma insInv_start:
  assumes "insInv stt d K lc" "length c = getLvlRank stt" "K 0 = 0 \<or> lexLe lc c"
  shows "midInv stt d K lc c 0 0"
proof -
  from assms(1) have k: "K 0 \<le> 1" by (simp add: insInv_def)
  with assms(3) have "K 0 \<le> 0 \<or> 0 + 1 = K 0 \<and> lexLe (drop 0 lc) (drop 0 c)" by auto
  with assms(1,2) show ?thesis
    unfolding midInv_def insInv_def by simp
qed

lemma midInv_finish:
  assumes "midInv stt e K lc c (getLvlRank stt) q"
  shows "insInv stt e K lc"
proof -
  have "lvlInv stt e K lc 0 j = lvlInv stt e K lc (getLvlRank stt) j" for j
    by (rule lvlInv_bnd_cong) (simp add: bnd_0 bnd_rank)
  moreover have "j + 1 \<noteq> getLvlRank stt" if "j + 1 < tracked stt" for j
    using that tracked_le[of stt] by simp
  ultimately show ?thesis
    using assms unfolding midInv_def insInv_def by simp
qed

lemma insInv_frame:
  assumes "lvlSize e1 = lvlSize e"
    "\<And>j. memRef e1 (PosMemRef j) = memRef e (PosMemRef j)"
    "\<And>j. memSize e1 (PosMemRef j) = memSize e (PosMemRef j)"
    "\<And>j. memRef e1 (CrdMemRef j) = memRef e (CrdMemRef j)"
    "\<And>j. memSize e1 (CrdMemRef j) = memSize e (CrdMemRef j)"
  shows "insInv stt e1 K lc = insInv stt e K lc"
proof -
  have cm: "crdMemSizeAtLvl stt e1 j = crdMemSizeAtLvl stt e j" for j
    by (simp add: crdMemSizeAtLvl_eq assms(5))
  have np: "numParents stt e1 j = numParents stt e j" for j
    by (rule numParents_cong[OF assms(1)]) (simp add: cm)
  have "lvlInv stt e1 K lc 0 j = lvlInv stt e K lc 0 j" for j
    by (rule lvlInv_frame) (simp_all add: assms np bnd_0 cm)
  moreover have "linked stt e1 K lc j v = linked stt e K lc j v" for j v
    by (rule linked_cong) (simp_all add: assms)
  ultimately show ?thesis by (simp add: insInv_def)
qed

lemma insert_insInv:
  assumes inv: "insInv stt d K lc" and sch: "posLayout stt"
    and ord: "K 0 = 0 \<or> lexLe lc c" and inb: "inBounds stt d c"
    and ins: "genImplementation stt d c v = Some d'"
  shows "\<exists>K'. insInv stt d' K' c \<and> lvlSize d' = lvlSize d"
proof -
  from ins obtain e p where len: "length c = getLvlRank stt"
    and g: "genLevels stt c 0 0 d = Some (e, p)"
    and r: "d' = createPushback stt e ValMemRef v 1 \<or> storeField e ValMemRef p v = Some d'"
    by (auto simp: genImplementation_def split: if_splits option.splits)
  from genLevels_midInv[OF g sch insInv_start[OF inv len ord] inb]
  obtain K' where m: "midInv stt e K' c c (getLvlRank stt) p" and lv: "lvlSize e = lvlSize d"
    by auto
  note i = midInv_finish[OF m]
  from r have fr: "lvlSize d' = lvlSize e"
    "\<And>j. memRef d' (PosMemRef j) = memRef e (PosMemRef j)"
    "\<And>j. memSize d' (PosMemRef j) = memSize e (PosMemRef j)"
    "\<And>j. memRef d' (CrdMemRef j) = memRef e (CrdMemRef j)"
    "\<And>j. memSize d' (CrdMemRef j) = memSize e (CrdMemRef j)"
    by (auto simp: createPushback_memRef_other createPushback_memSize
          storeField_memRef storeField_memSize storeField_lvlSize)
  from insInv_frame[OF fr, of stt K' c] i lv fr(1) show ?thesis by auto
qed

lemma insertAll_insInv:
  "insertAll stt d ops = Some d' \<Longrightarrow> posLayout stt \<Longrightarrow> insInv stt d K lc \<Longrightarrow>
   sorted_wrt lexLe (map fst ops) \<Longrightarrow> K 0 = 0 \<or> (\<forall>c \<in> set (map fst ops). lexLe lc c) \<Longrightarrow>
   list_all (\<lambda>cv. inBounds stt d (fst cv)) ops \<Longrightarrow>
   \<exists>K' lc'. insInv stt d' K' lc' \<and> lvlSize d' = lvlSize d"
proof (induction ops arbitrary: d K lc)
  case Nil
  then show ?case by auto
next
  case (Cons a ops)
  obtain c v where a: "a = (c, v)" by (cases a)
  from Cons.prems(1) a obtain d1 where i: "genImplementation stt d c v = Some d1"
    and r: "insertAll stt d1 ops = Some d'" by (auto split: option.splits)
  from Cons.prems(5) a have ord: "K 0 = 0 \<or> lexLe lc c" by auto
  from Cons.prems(6) a have inb: "inBounds stt d c" by simp
  from insert_insInv[OF Cons.prems(3,2) ord inb i]
  obtain K1 where i1: "insInv stt d1 K1 c" and lv: "lvlSize d1 = lvlSize d" by blast
  from Cons.prems(4) a have s: "sorted_wrt lexLe (map fst ops)"
    and o1: "K1 0 = 0 \<or> (\<forall>c' \<in> set (map fst ops). lexLe c c')" by auto
  from Cons.prems(6) inBounds_cong[OF lv, of stt]
  have b1: "list_all (\<lambda>cv. inBounds stt d1 (fst cv)) ops" by (simp add: list_all_iff)
  from Cons.IH[OF r Cons.prems(2) i1 s o1 b1] lv show ?case by auto
qed

lemma fold_initLvl_sizes:
  "(\<forall>k. memSize d0 (CrdMemRef k) = 0) \<Longrightarrow> (\<forall>j. memSize d0 (PosMemRef j) = 0) \<Longrightarrow>
   (\<forall>k. memSize (fold (initLvl stt ds) [0 ..< m] d0) (CrdMemRef k) = 0)
   \<and> (\<forall>j. memSize (fold (initLvl stt ds) [0 ..< m] d0) (PosMemRef j)
            = (if j < m \<and> isCompressedLvl stt j then 1 else 0))
   \<and> (\<forall>j. j < m \<and> isCompressedLvl stt j \<longrightarrow>
          memSize (fold (initLvl stt ds) [0 ..< m] d0) (PosMemRef j)
            \<le> length (memRef (fold (initLvl stt ds) [0 ..< m] d0) (PosMemRef j)))
   \<and> (\<forall>j. list_all (\<lambda>x. x = 0) (occupied (fold (initLvl stt ds) [0 ..< m] d0) (PosMemRef j)))"
proof (induction m)
  case 0
  then show ?case by (simp add: occupied_def)
next
  case (Suc m)
  let ?g = "fold (initLvl stt ds) [0 ..< m] d0"
  let ?g1 = "?g\<lparr>lvlSize := (lvlSize ?g)(m := ds ! toOrigDim stt m)\<rparr>"
  note ih = Suc.IH[OF Suc.prems]
  have st: "fold (initLvl stt ds) [0 ..< Suc m] d0 = initLvl stt ds m ?g" by simp
  have oc1: "\<And>j. occupied ?g1 (PosMemRef j) = occupied ?g (PosMemRef j)" by (simp add: occupied_def)
  show ?case
  proof (cases "isCompressedLvl stt m")
    case False
    then have "initLvl stt ds m ?g = ?g1" by (simp add: initLvl_def)
    with ih False oc1 show ?thesis
      unfolding st by (auto simp: less_Suc_eq)
  next
    case True
    let ?h = "createPushback stt ?g1 (PosMemRef m) 0 1"
    from True have i: "initLvl stt ds m ?g = ?h"
      by (simp add: initLvl_def)
    have m0: "memSize ?g (PosMemRef m) = 0" using ih by simp
    have cap: "memSize ?h (PosMemRef m) \<le> length (memRef ?h (PosMemRef m))"
      using push_back_length_ge[of "memSize ?g (PosMemRef m)" 1 "memRef ?g (PosMemRef m)" 0]
        createPushback_memRef_same[of stt ?g1 "PosMemRef m" 0 1]
      by (simp add: createPushback_memSize)
    have a: "\<forall>k. memSize ?h (CrdMemRef k) = 0"
      using ih by (simp add: createPushback_memSize)
    have b: "\<forall>j. memSize ?h (PosMemRef j) = (if j < Suc m \<and> isCompressedLvl stt j then 1 else 0)"
      using ih True by (auto simp: createPushback_memSize less_Suc_eq)
    have c: "\<forall>j. j < Suc m \<and> isCompressedLvl stt j \<longrightarrow>
          memSize ?h (PosMemRef j) \<le> length (memRef ?h (PosMemRef j))"
    proof (intro allI impI)
      fix j assume j: "j < Suc m \<and> isCompressedLvl stt j"
      show "memSize ?h (PosMemRef j) \<le> length (memRef ?h (PosMemRef j))"
      proof (cases "j = m")
        case True
        with cap show ?thesis by simp
      next
        case False
        with j have jm: "j < m \<and> isCompressedLvl stt j" by simp
        with ih have "memSize ?g (PosMemRef j) \<le> length (memRef ?g (PosMemRef j))" by blast
        with False show ?thesis
          by (simp add: createPushback_memSize createPushback_memRef_other)
      qed
    qed
    have d: "\<forall>j. list_all (\<lambda>x. x = 0) (occupied ?h (PosMemRef j))"
    proof
      fix j
      show "list_all (\<lambda>x. x = 0) (occupied ?h (PosMemRef j))"
      proof (cases "j = m")
        case True
        have "memSize ?g1 (getMemRefFieldIndex stt (PosMemRef m))
                \<le> length (memRef ?g1 (getMemRefFieldIndex stt (PosMemRef m)))"
          using m0 by simp
        from createPushback_occupied[OF this, of 0 1] ih oc1[of m] True
        show ?thesis by simp
      next
        case False
        then have "occupied ?h (PosMemRef j) = occupied ?g (PosMemRef j)"
          by (simp add: occupied_def createPushback_memSize createPushback_memRef_other)
        with ih show ?thesis by simp
      qed
    qed
    show ?thesis unfolding st i using a b c d by blast
  qed
qed

lemma numParents_zero:
  assumes "posLayout stt" "isCompressedDLT (getLvlType stt i)" "i < j" "j \<le> tracked stt"
    "\<forall>k. memSize d (CrdMemRef k) = 0"
  shows "numParents stt d j = 0"
  using assms(3,4)
proof (induction j)
  case 0
  then show ?case by simp
next
  case (Suc j)
  from Suc.prems have jt: "j < tracked stt" by simp
  with tracked_le[of stt] have jn: "j < getLvlRank stt" by simp
  have cz: "crdMemSizeAtLvl stt d j = 0" using assms(5) by (simp add: crdMemSizeAtLvl_eq)
  show ?case
  proof (cases "i = j")
    case True
    with assms(2) compressed_flags[of stt j] cz show ?thesis by simp
  next
    case False
    with Suc.prems have "i < j" by simp
    from Suc.IH[OF this] jt have z: "numParents stt d j = 0" by simp
    from assms(1) jn show ?thesis
    proof (cases rule: level_cases)
      case dense
      with z show ?thesis by (simp add: isDenseLvl_def)
    next
      case compressed
      with cz show ?thesis by (simp add: isDenseLvl_def isCompressedLvl_def)
    next
      case singleton
      with tracked_not_singleton[OF jt] show ?thesis by simp
    qed
  qed
qed

lemma createAllocFields_positions:
  assumes al: "createAllocFields stt dynSizes sizeHint = Some d" and sch: "posLayout stt"
    and jt: "j < tracked stt" and cj: "isCompressedLvl stt j"
  shows "memSize d (PosMemRef j) = numParents stt d j + 1"
    "memSize d (PosMemRef j) \<le> length (memRef d (PosMemRef j))"
    "list_all (\<lambda>x. x = 0) (occupied d (PosMemRef j))"
    "memSize d (CrdMemRef k) = 0"
proof -
  let ?ds = "buildDimSizes (dimShape stt) dynSizes"
  let ?heur = "allocHeuristics stt ?ds sizeHint"
  let ?d0 = "\<lparr>lvlSize = (\<lambda>l. 0), memSize = (\<lambda>f. 0),
              memRef = (\<lambda>f. if f \<in> set (foreachFieldInSparseTensor stt) then allocField ?heur f else [])\<rparr>"
  let ?g = "fold (initLvl stt ?ds) [0 ..< getLvlRank stt] ?d0"
  from al have a: "allocSchemeLoop stt ?g 1 0 = Some d"
    by (simp add: createAllocFields_def Let_def allocSchemeForRank_def split: if_splits)
  have "(\<forall>k. memSize ?d0 (CrdMemRef k) = 0)" "(\<forall>j. memSize ?d0 (PosMemRef j) = 0)" by simp_all
  from fold_initLvl_sizes[OF this, of stt ?ds "getLvlRank stt"]
  have g1: "\<And>k. memSize ?g (CrdMemRef k) = 0"
    and g2: "\<And>j. memSize ?g (PosMemRef j) = (if j < getLvlRank stt \<and> isCompressedLvl stt j then 1 else 0)"
    and g3: "\<And>j. j < getLvlRank stt \<Longrightarrow> isCompressedLvl stt j \<Longrightarrow>
          memSize ?g (PosMemRef j) \<le> length (memRef ?g (PosMemRef j))"
    and g4: "\<And>j. list_all (\<lambda>x. x = 0) (occupied ?g (PosMemRef j))"
    by blast+
  note lv = allocSchemeLoop_lvlSize[OF a]
  have cz: "\<And>k. memSize d (CrdMemRef k) = 0" using allocSchemeLoop_crd[OF a] g1 by simp
  from jt tracked_le[of stt] have jn: "j < getLvlRank stt" by simp
  from cj have cj': "isCompressedDLT (getLvlType stt j)" by (simp add: isCompressedLvl_def)
  note ps = allocSchemeLoop_pos[OF a, of j]
  let ?pr = "prodSz stt ?g 0 j"
  show "memSize d (CrdMemRef k) = 0" by (rule cz)
  show "memSize d (PosMemRef j) = numParents stt d j + 1"
  proof (cases "reach stt 0 j")
    case True
    then have dr: "\<forall>i. 0 \<le> i \<and> i < j \<longrightarrow> isDenseLvl stt i" by (simp add: reach_def isDenseLvl_def)
    from numParents_dense_run[OF _ dr, of d] prodSz_cong[OF lv, of stt 0 j]
    have "numParents stt d j = ?pr" by simp
    moreover from True ps g2[of j] jn cj have "memSize d (PosMemRef j) = 1 + ?pr" by simp
    ultimately show ?thesis by simp
  next
    case False
    from not_reach_compressed_between[OF sch _ jt cj' False]
    obtain i where i: "i < j" "isCompressedDLT (getLvlType stt i)" by auto
    from numParents_zero[OF sch i(2) i(1) _ allI[of "\<lambda>k. memSize d (CrdMemRef k) = 0", OF cz]] jt
    have "numParents stt d j = 0" by simp
    with False ps g2[of j] jn cj show ?thesis by simp
  qed
  show "memSize d (PosMemRef j) \<le> length (memRef d (PosMemRef j))"
  proof (cases "reach stt 0 j")
    case True
    with ps have "memRef d (PosMemRef j)
          = fst (push_back (memSize ?g (PosMemRef j)) (memRef ?g (PosMemRef j)) 0 (1 * ?pr))"
      "memSize d (PosMemRef j) = memSize ?g (PosMemRef j) + 1 * ?pr" by simp_all
    with push_back_length_ge[of "memSize ?g (PosMemRef j)" "1 * ?pr" "memRef ?g (PosMemRef j)" 0]
    show ?thesis by simp
  next
    case False
    with ps g3[OF jn cj] show ?thesis by simp
  qed
  show "list_all (\<lambda>x. x = 0) (occupied d (PosMemRef j))"
  proof (cases "reach stt 0 j")
    case True
    with ps have "occupied d (PosMemRef j)
        = take (memSize ?g (PosMemRef j) + 1 * ?pr)
            (fst (push_back (memSize ?g (PosMemRef j)) (memRef ?g (PosMemRef j)) 0 (1 * ?pr)))"
      by (simp add: occupied_def)
    also have "\<dots> = occupied ?g (PosMemRef j) @ replicate (1 * ?pr) 0"
      using push_back_take[OF g3[OF jn cj], of "1 * ?pr" 0] by (simp add: occupied_def)
    finally show ?thesis using g4[of j] by (auto simp: list_all_iff)
  next
    case False
    with ps have "occupied d (PosMemRef j) = occupied ?g (PosMemRef j)" by (simp add: occupied_def)
    with g4[of j] show ?thesis by simp
  qed
qed

lemma createAllocFields_insInv:
  assumes al: "createAllocFields stt dynSizes sizeHint = Some d" and sch: "posLayout stt"
  shows "insInv stt d (\<lambda>j. 0) (replicate (getLvlRank stt) 0)"
proof -
  have cz: "\<And>k. memSize d (CrdMemRef k) = 0"
  proof -
    fix k
    let ?ds = "buildDimSizes (dimShape stt) dynSizes"
    let ?heur = "allocHeuristics stt ?ds sizeHint"
    let ?d0 = "\<lparr>lvlSize = (\<lambda>l. 0), memSize = (\<lambda>f. 0),
              memRef = (\<lambda>f. if f \<in> set (foreachFieldInSparseTensor stt) then allocField ?heur f else [])\<rparr>"
    let ?g = "fold (initLvl stt ?ds) [0 ..< getLvlRank stt] ?d0"
    from al have a: "allocSchemeLoop stt ?g 1 0 = Some d"
      by (simp add: createAllocFields_def Let_def allocSchemeForRank_def split: if_splits)
    have "(\<forall>k. memSize ?d0 (CrdMemRef k) = 0)" "(\<forall>j. memSize ?d0 (PosMemRef j) = 0)" by simp_all
    from fold_initLvl_sizes[OF this, of stt ?ds "getLvlRank stt"]
    have "memSize ?g (CrdMemRef k) = 0" by blast
    with allocSchemeLoop_crd[OF a, of k] show "memSize d (CrdMemRef k) = 0" by simp
  qed
  have A: "lvlInv stt d (\<lambda>j. 0) (replicate (getLvlRank stt) 0) 0 j"
    if jt: "j < tracked stt" and cj: "isCompressedLvl stt j" for j
  proof -
    note p = createAllocFields_positions[OF al sch jt cj]
    have z: "\<And>i. i < length (occupied d (PosMemRef j)) \<Longrightarrow> occupied d (PosMemRef j) ! i = 0"
      using p(3) by (simp add: list_all_length)
    have lo: "length (occupied d (PosMemRef j)) = memSize d (PosMemRef j)"
      using p(2) by (simp add: occupied_def)
    with p(1) have l0: "0 < length (occupied d (PosMemRef j))" by simp
    have pi: "posInv (occupied d (PosMemRef j)) 0 (bnd stt d 0 j)"
      unfolding posInv_def hsorted_def using z l0 by auto
    have z0: "j = 0 \<longrightarrow> occupied d (PosMemRef j) ! 0 = 0" using z[OF l0] by blast
    show ?thesis
      unfolding lvlInv_def using p(1,2) pi z[OF l0] z0 cz by simp
  qed
  have L: "linked stt d (\<lambda>j. 0) (replicate (getLvlRank stt) 0) j 0" for j
    using cz by (simp add: linked_def link_def)
  show ?thesis unfolding insInv_def using A L by simp
qed

lemma posCap_push_back:
  assumes "0 < length b" "sz \<le> length b"
  shows "0 < length (fst (push_back sz b v n)) \<and> sz + n \<le> length (fst (push_back sz b v n))"
proof -
  from assms(1) push_back_length_mono[of b sz v n]
  have "0 < length (fst (push_back sz b v n))" by linarith
  with push_back_length_ge[of sz n b v] show ?thesis by blast
qed

lemma posCap_createPushback:
  assumes "posCap d j"
  shows "posCap (createPushback stt d k v n) j"
proof (cases "PosMemRef j = getMemRefFieldIndex stt k")
  case True
  from assms have "0 < length (memRef d (PosMemRef j))"
    "memSize d (PosMemRef j) \<le> length (memRef d (PosMemRef j))" by (simp_all add: posCap_def)
  from posCap_push_back[OF this, where v = v and n = n]
    createPushback_memRef_same[of stt d k v n] True
  show ?thesis by (simp add: posCap_def createPushback_memSize)
next
  case False
  with assms show ?thesis
    by (simp add: posCap_def createPushback_memSize createPushback_memRef_other)
qed

lemma posCap_storeField:
  "storeField d f i v = Some d' \<Longrightarrow> posCap d j \<Longrightarrow> posCap d' j"
  by (auto simp: posCap_def storeField_memRef storeField_memSize)

lemma posCap_allocSchemeLoop:
  "allocSchemeLoop stt d lin l = Some d' \<Longrightarrow> posCap d j \<Longrightarrow> posCap d' j"
proof (induction stt d lin l rule: allocSchemeLoop.induct)
  case (1 stt desc linear l)
  from "1.prems" show ?case
    apply (subst (asm) allocSchemeLoop.simps)
    apply (auto split: if_splits simp: posCap_createPushback dest: "1.IH")
    done
qed

lemma posCap_genCompressed:
  assumes "genCompressed stt d c p l = Some (d', q)" "posCap d j"
  shows "posCap d' j"
proof -
  from assms(1) obtain pstart pstop d1 b where
    lk: "genCompressedLookup stt d c p l pstart pstop = Some (d1, b)"
    and r: "d' = d1 \<or> genCompressedAppend stt d1 c p l (crdMemSizeAtLvl stt d l) = Some (d', q)"
    by (cases rule: genCompressed_cases) auto
  from lk assms(2) have c1: "posCap d1 j"
    by (cases rule: genCompressedLookup_cases) (auto intro: posCap_storeField)
  from r show ?thesis
  proof
    assume "d' = d1"
    with c1 show ?thesis by simp
  next
    assume "genCompressedAppend stt d1 c p l (crdMemSizeAtLvl stt d l) = Some (d', q)"
    then obtain d2 where d2: "storeField d1 (PosMemRef l) (p + 1) (crdMemSizeAtLvl stt d l + 1) = Some d2"
      and d': "(if l + 1 < getLvlRank stt
        then allocSchemeForRank stt (createPushback stt d2 (CrdMemRef l) (c ! l) 1) (l + 1)
        else Some (createPushback stt d2 (CrdMemRef l) (c ! l) 1)) = Some d'"
      by (cases rule: genCompressedAppend_cases) auto
    from posCap_createPushback[OF posCap_storeField[OF d2 c1]]
    have c3: "posCap (createPushback stt d2 (CrdMemRef l) (c ! l) 1) j" .
    from d' c3 show ?thesis
      by (auto simp: allocSchemeForRank_def split: if_splits intro: posCap_allocSchemeLoop)
  qed
qed

lemma posCap_genLevels:
  "genLevels stt c l p e = Some (e', q) \<Longrightarrow> posCap e j \<Longrightarrow> posCap e' j"
proof (induction stt c l p e rule: genLevels.induct)
  case (1 stt coords l parentPos desc)
  from "1.prems" show ?case
    apply (subst (asm) genLevels.simps)
    apply (auto split: if_splits option.splits
                simp: posCap_createPushback dest: "1.IH" posCap_genCompressed)
    done
qed

lemma posCap_insert:
  assumes "genImplementation stt d c v = Some d'" "posCap d j"
  shows "posCap d' j"
proof -
  from assms(1) obtain e p where g: "genLevels stt c 0 0 d = Some (e, p)"
    and r: "d' = createPushback stt e ValMemRef v 1 \<or> storeField e ValMemRef p v = Some d'"
    by (auto simp: genImplementation_def split: if_splits option.splits)
  from posCap_genLevels[OF g assms(2)] r show ?thesis
    by (auto intro: posCap_createPushback posCap_storeField)
qed

lemma posCap_insertAll:
  "insertAll stt d ops = Some d' \<Longrightarrow> posCap d j \<Longrightarrow> posCap d' j"
proof (induction ops arbitrary: d)
  case Nil
  then show ?case by simp
next
  case (Cons a ops)
  obtain c v where a: "a = (c, v)" by (cases a)
  from Cons.prems(1) a obtain d1 where i: "genImplementation stt d c v = Some d1"
    and r: "insertAll stt d1 ops = Some d'" by (auto split: option.splits)
  from Cons.IH[OF r posCap_insert[OF i Cons.prems(2)]] show ?case .
qed

lemma posCap_alloc:
  assumes al: "createAllocFields stt dynSizes sizeHint = Some d"
    and jn: "j < getLvlRank stt" and cj: "isCompressedLvl stt j"
  shows "posCap d j"
proof -
  let ?ds = "buildDimSizes (dimShape stt) dynSizes"
  let ?heur = "allocHeuristics stt ?ds sizeHint"
  let ?d0 = "\<lparr>lvlSize = (\<lambda>l. 0), memSize = (\<lambda>f. 0),
              memRef = (\<lambda>f. if f \<in> set (foreachFieldInSparseTensor stt) then allocField ?heur f else [])\<rparr>"
  let ?g = "fold (initLvl stt ?ds) [0 ..< getLvlRank stt] ?d0"
  from al have a: "allocSchemeLoop stt ?g 1 0 = Some d"
    by (simp add: createAllocFields_def Let_def allocSchemeForRank_def split: if_splits)
  have "(\<forall>k. memSize ?d0 (CrdMemRef k) = 0)" "(\<forall>j. memSize ?d0 (PosMemRef j) = 0)" by simp_all
  from fold_initLvl_sizes[OF this, of stt ?ds "getLvlRank stt"]
  have g2: "memSize ?g (PosMemRef j) = (if j < getLvlRank stt \<and> isCompressedLvl stt j then 1 else 0)"
    and g3: "j < getLvlRank stt \<and> isCompressedLvl stt j \<longrightarrow>
          memSize ?g (PosMemRef j) \<le> length (memRef ?g (PosMemRef j))"
    by blast+
  from g2 g3 jn cj have "Suc 0 \<le> length (memRef ?g (PosMemRef j))" by simp
  then have "0 < length (memRef ?g (PosMemRef j))" by linarith
  with g2 g3 jn cj have "posCap ?g j" unfolding posCap_def by blast
  from posCap_allocSchemeLoop[OF a this] show ?thesis .
qed

lemma posCap_canFinalize:
  assumes "list_all (\<lambda>dlt. \<not> isCompressedWithHiDLT dlt) (lvlTypes stt)"
    and "\<And>j. j < getLvlRank stt \<Longrightarrow> isCompressedLvl stt j \<Longrightarrow> posCap d j"
  shows "canFinalize stt d"
proof -
  have "canFinalizeLvl stt d l" if l: "l < getLvlRank stt" for l
  proof -
    from assms(1) l have nh: "\<not> isCompressedWithHiDLT (getLvlType stt l)"
      by (simp add: list_all_length getLvlRank_def getLvlType_def)
    show ?thesis
    proof (cases "needsCleanup stt l")
      case False
      with nh show ?thesis by (simp add: canFinalizeLvl_def)
    next
      case True
      then have "isCompressedLvl stt l" by (simp add: needsCleanup_def)
      from assms(2)[OF l this] nh True show ?thesis by (simp add: canFinalizeLvl_def posCap_def)
    qed
  qed
  then show ?thesis by (simp add: canFinalize_def list_all_iff)
qed

lemma genEndInsert_canFinalize:
  "canFinalize stt d \<Longrightarrow> genEndInsert stt d = Some (d\<lparr>memRef := patchedField stt d\<rparr>)"
  using endInsertLoop_eq[of 0 stt d]
  by (simp add: genEndInsert_def canFinalize_def patchedBelow_0 patchedBelow_rank)

lemma insInv_finalized:
  assumes inv: "insInv stt d K lc"
    and l: "l < tracked stt" and c: "isCompressedLvl stt l"
  shows "sorted (occupied (d\<lparr>memRef := patchedField stt d\<rparr>) (PosMemRef l))
       \<and> length (occupied (d\<lparr>memRef := patchedField stt d\<rparr>) (PosMemRef l))
           = numParents stt (d\<lparr>memRef := patchedField stt d\<rparr>) l + 1"
proof -
  let ?d = "d\<lparr>memRef := patchedField stt d\<rparr>"
  let ?P = "occupied d (PosMemRef l)"
  from l tracked_le[of stt] have ln: "l < getLvlRank stt" by simp
  from inv l c have li: "lvlInv stt d K lc 0 l" by (simp add: insInv_def)
  then have ms: "memSize d (PosMemRef l) = numParents stt d l + 1"
    and cap: "memSize d (PosMemRef l) \<le> length (memRef d (PosMemRef l))"
    and pi: "posInv ?P (K l) (bnd stt d 0 l)"
    and z0: "l = 0 \<longrightarrow> ?P ! 0 = 0"
    by (simp_all add: lvlInv_def)
  have lP: "length ?P = memSize d (PosMemRef l)" using cap by (simp add: occupied_def)
  have hs: "hsorted ?P" using pi by (simp add: posInv_def)
  have np: "numParents stt ?d l = numParents stt d l"
    by (rule numParents_cong) (simp_all add: crdMemSizeAtLvl_eq)
  have oc: "occupied ?d (PosMemRef l) = (if 0 < l then patchPositions ?P else ?P)"
    using ln c lP by (simp add: occupied_def patchedField_def needsCleanup_def)
  have so: "sorted (occupied ?d (PosMemRef l))"
  proof (cases "0 < l")
    case True
    with oc hsorted_patchPositions[OF hs] show ?thesis by simp
  next
    case False
    then have l0: "l = 0" by simp
    with ms lP have "length ?P = 2" by simp
    then obtain x y where P: "?P = [x, y]"
      by (cases ?P; simp) (metis length_0_conv length_Suc_conv)
    with z0 l0 have "x = 0" by simp
    with P oc False show ?thesis by simp
  qed
  have "length (occupied ?d (PosMemRef l)) = length ?P" using oc by simp
  with so lP ms np show ?thesis by simp
qed

lemma insInv_positions_le_count:
  assumes "insInv stt d K lc" "l < tracked stt" "isCompressedLvl stt l"
  shows "list_all (\<lambda>x. x \<le> crdMemSizeAtLvl stt d l) (occupied d (PosMemRef l))"
  using assms by (simp add: insInv_def lvlInv_def posInv_def bnd_0 list_all_length)

lemma case_option_SomeE:
  "(case x of None \<Rightarrow> False | Some a \<Rightarrow> P a) \<Longrightarrow> \<exists>a. x = Some a \<and> P a"
  by (cases x) simp_all

lemma fitsWidth_mono: "fitsWidth w y \<Longrightarrow> x \<le> y \<Longrightarrow> fitsWidth w x"
  by (auto simp: fitsWidth_def)

lemma set_patchFrom: "set (patchFrom prev xs) \<subseteq> insert prev (set xs)"
  by (induction xs arbitrary: prev) auto

lemma set_patchPositions: "set (patchPositions ps) \<subseteq> set ps"
  using set_patchFrom by (cases ps) (auto simp: patchPositions_def)

lemma countsFitD:
  "countsFit stt d \<Longrightarrow> l < getLvlRank stt \<Longrightarrow> isCompressedLvl stt l \<Longrightarrow>
   fitsWidth (posWidth stt) (crdMemSizeAtLvl stt d l)"
  by (simp add: countsFit_def list_all_iff)

lemma insInv_finalized_fit:
  assumes inv: "insInv stt d K lc"
    and l: "l < tracked stt" and c: "isCompressedLvl stt l"
    and cf: "countsFit stt d"
  shows "list_all (fitsWidth (posWidth stt))
           (occupied (d\<lparr>memRef := patchedField stt d\<rparr>) (PosMemRef l))"
proof -
  let ?d = "d\<lparr>memRef := patchedField stt d\<rparr>"
  let ?P = "occupied d (PosMemRef l)"
  from l tracked_le[of stt] have ln: "l < getLvlRank stt" by simp
  from inv l c have li: "lvlInv stt d K lc 0 l" by (simp add: insInv_def)
  then have cap: "memSize d (PosMemRef l) \<le> length (memRef d (PosMemRef l))"
    by (simp add: lvlInv_def)
  have lP: "length ?P = memSize d (PosMemRef l)" using cap by (simp add: occupied_def)
  have oc: "occupied ?d (PosMemRef l) = (if 0 < l then patchPositions ?P else ?P)"
    using ln c lP by (simp add: occupied_def patchedField_def needsCleanup_def)
  from insInv_positions_le_count[OF inv l c]
  have le: "\<forall>x \<in> set ?P. x \<le> crdMemSizeAtLvl stt d l" by (simp add: list_all_iff)
  have "\<forall>x \<in> set ?P. fitsWidth (posWidth stt) x"
  proof
    fix x assume "x \<in> set ?P"
    with le have "x \<le> crdMemSizeAtLvl stt d l" by blast
    from fitsWidth_mono[OF countsFitD[OF cf ln c] this] show "fitsWidth (posWidth stt) x" .
  qed
  moreover have "set (occupied ?d (PosMemRef l)) \<subseteq> set ?P"
    using oc set_patchPositions[of ?P] by (simp split: if_splits)
  ultimately show ?thesis unfolding list_all_iff by blast
qed

subsection \<open>Insertion on schemes of dense and unique compressed levels\<close>

lemma crdLvl_noAOS: "getLvlRank stt \<le> cooStart stt \<Longrightarrow> crdLvl stt l = l"
  by (auto simp: crdLvl_def)

lemma stride_noAOS: "getLvlRank stt \<le> cooStart stt \<Longrightarrow> snd (getCrdMemRefIndexAndStride stt l) = 1"
  by (auto simp: getCrdMemRefIndexAndStride_def)

lemma crdMemSizeAtLvl_noAOS:
  "getLvlRank stt \<le> cooStart stt \<Longrightarrow> crdMemSizeAtLvl stt d l = memSize d (CrdMemRef l)"
  by (simp add: crdMemSizeAtLvl_eq stride_noAOS crdLvl_noAOS)

lemma denseOrUniqueCompressedD:
  "denseOrUniqueCompressed stt \<Longrightarrow> l < getLvlRank stt \<Longrightarrow>
   \<not> isSingletonDLT (getLvlType stt l)
   \<and> (isCompressedDLT (getLvlType stt l) \<longrightarrow> isUniqueLvl stt l)
   \<and> (isDenseDLT (getLvlType stt l) \<or> isCompressedDLT (getLvlType stt l))"
  by (auto simp: denseOrUniqueCompressed_def list_all_length getLvlRank_def getLvlType_def
        isUniqueLvl_def isSingletonDLT_def isDenseDLT_def isCompressedDLT_def)

lemma denseOrUniqueCompressed_posLayout:
  assumes "denseOrUniqueCompressed stt" "getLvlRank stt \<le> cooStart stt"
  shows "posLayout stt"
proof -
  have "\<not> isCompressedWithHiDLT dlt" if "dlt \<in> set (lvlTypes stt)" for dlt
    using that assms(1)
    by (auto simp: denseOrUniqueCompressed_def list_all_iff isCompressedWithHiDLT_def
          isDenseDLT_def isCompressedDLT_def)
  moreover have "drop (cooStart stt + 1) (lvlTypes stt) = []"
    using assms(2) by (simp add: getLvlRank_def)
  ultimately show ?thesis by (simp add: posLayout_def list_all_iff)
qed

lemma denseOrUniqueCompressed_tracked:
  assumes "denseOrUniqueCompressed stt"
  shows "tracked stt = getLvlRank stt"
proof -
  have "\<forall>dlt \<in> set (lvlTypes stt). \<not> isSingletonDLT dlt"
    using assms
    by (auto simp: denseOrUniqueCompressed_def list_all_iff isSingletonDLT_def
          isDenseDLT_def isCompressedDLT_def)
  then have "takeWhile (\<lambda>dlt. \<not> isSingletonDLT dlt) (lvlTypes stt) = lvlTypes stt"
    by (simp add: takeWhile_eq_all_conv)
  then show ?thesis unfolding tracked_def getLvlRank_def by (rule arg_cong)
qed

lemma posReadyD:
  "posReady stt d \<Longrightarrow> j < getLvlRank stt \<Longrightarrow> isCompressedLvl stt j \<Longrightarrow> posReadyLvl stt d j"
  by (simp add: posReady_def list_all_iff)

lemma posReadyI:
  "(\<And>j. j < getLvlRank stt \<Longrightarrow> isCompressedLvl stt j \<Longrightarrow> posReadyLvl stt d j) \<Longrightarrow>
   posReady stt d"
  by (simp add: posReady_def list_all_iff)

lemma posReadyLvl_nth:
  assumes "posReadyLvl stt d j" "i \<le> numParents stt d j"
  shows "i < length (memRef d (PosMemRef j))"
    "memRef d (PosMemRef j) ! i \<le> crdMemSizeAtLvl stt d j"
proof -
  from assms have ms: "i < memSize d (PosMemRef j)"
    and cap: "memSize d (PosMemRef j) \<le> length (memRef d (PosMemRef j))"
    and bd: "list_all (\<lambda>x. x \<le> crdMemSizeAtLvl stt d j) (occupied d (PosMemRef j))"
    by (simp_all add: posReadyLvl_def)
  from ms cap show "i < length (memRef d (PosMemRef j))" by simp
  from ms cap have "i < length (occupied d (PosMemRef j))" by (simp add: occupied_def)
  with bd have "occupied d (PosMemRef j) ! i \<le> crdMemSizeAtLvl stt d j"
    by (simp add: list_all_length)
  with ms show "memRef d (PosMemRef j) ! i \<le> crdMemSizeAtLvl stt d j"
    by (simp add: occupied_def)
qed

lemma numParents_compressed:
  "isCompressedLvl stt l \<Longrightarrow> numParents stt d (l + 1) = crdMemSizeAtLvl stt d l"
  by (simp add: isCompressedLvl_def isDenseLvl_def isCompressedDLT_def isDenseDLT_def)

lemma genCompressed_SomeD:
  "genCompressed stt d c p l = Some r \<Longrightarrow> l < getLvlRank stt \<and> length c = getLvlRank stt"
  by (auto simp: genCompressed_def split: if_splits)

lemma genCompressed_ready:
  assumes g: "genCompressed stt d c p l = Some (d1, q)"
    and na: "getLvlRank stt \<le> cooStart stt" and sch: "denseOrUniqueCompressed stt"
    and cl: "isCompressedLvl stt l"
    and rd: "posReady stt d" and pp: "p < numParents stt d l"
  shows "posReady stt d1 \<and> q < numParents stt d1 (l + 1) \<and> lvlSize d1 = lvlSize d"
proof -
  note ms = crdMemSizeAtLvl_noAOS[OF na]
  from genCompressed_SomeD[OF g] have ln: "l < getLvlRank stt" by simp
  note rl = posReadyD[OF rd ln cl]
  let ?P = "memRef d (PosMemRef l)"
  let ?m = "memSize d (CrdMemRef l)"
  from pp have pp1: "p + 1 \<le> numParents stt d l" "p \<le> numParents stt d l" by simp_all
  note b1 = posReadyLvl_nth[OF rl pp1(1), unfolded ms]
  note b0 = posReadyLvl_nth[OF rl pp1(2), unfolded ms]
  have np1: "numParents stt e (Suc l) = memSize e (CrdMemRef l)" for e
    using numParents_compressed[OF cl, of e] by (simp only: ms Suc_eq_plus1)
  from g show ?thesis
  proof (cases rule: genCompressed_effect)
    case present
    from present(4) b1(2) have "q < ?m" unfolding present(5) by simp
    with present(1) rd show ?thesis by (simp add: np1 del: numParents.simps)
  next
    case (absent a)
    note lv = absent(4)
    have cnt: "memSize d1 (CrdMemRef k) = (if k = l then ?m + 1 else memSize d (CrdMemRef k))" for k
      using absent(7)[of k] by (simp add: crdLvl_noAOS[OF na])
    have am: "a \<le> ?m" using absent(1) b0(2) by (simp add: ms)
    have q: "q < numParents stt d1 (l + 1)"
      using absent(3) by (simp add: np1 ms cnt del: numParents.simps)
    have np_le: "numParents stt d1 j = numParents stt d j" if "j \<le> l" for j
      by (rule numParents_cong[OF lv]) (use that in \<open>simp add: ms cnt\<close>)
    have "posReadyLvl stt d1 j" if jn: "j < getLvlRank stt" and cj: "isCompressedLvl stt j" for j
    proof (cases "j = l")
      case True
      from rl have r1: "memSize d (PosMemRef l) = numParents stt d l + 1"
        and r2: "memSize d (PosMemRef l) \<le> length ?P"
        and r3: "list_all (\<lambda>x. x \<le> ?m) (occupied d (PosMemRef l))"
        by (simp_all add: posReadyLvl_def ms)
      have "occupied d1 (PosMemRef l) ! i \<le> ?m + 1" if i: "i < memSize d (PosMemRef l)" for i
      proof -
        from i r2 have il: "i < length ?P" by simp
        from i r2 r3 have old: "?P ! i \<le> ?m" by (simp add: list_all_length occupied_def)
        have "occupied d1 (PosMemRef l) ! i = (?P[p := a, p + 1 := ?m + 1]) ! i"
          using i by (simp add: occupied_def absent(5,6) ms)
        also have "\<dots> \<le> ?m + 1" using il old am b0(1) b1(1) by (simp add: nth_list_update)
        finally show ?thesis .
      qed
      then have "list_all (\<lambda>x. x \<le> ?m + 1) (occupied d1 (PosMemRef l))"
        using r2 by (simp add: list_all_length occupied_def absent(5,6) ms)
      with r1 r2 np_le[of l] True show ?thesis
        by (simp add: posReadyLvl_def ms cnt absent(5,6))
    next
      case False
      note rj = posReadyD[OF rd jn cj]
      from rj have r1: "memSize d (PosMemRef j) = numParents stt d j + 1"
        and r2: "memSize d (PosMemRef j) \<le> length (memRef d (PosMemRef j))"
        and r3: "list_all (\<lambda>x. x \<le> memSize d (CrdMemRef j)) (occupied d (PosMemRef j))"
        by (simp_all add: posReadyLvl_def ms)
      note eff = absent(10)[OF False]
      have cj': "memSize d1 (CrdMemRef j) = memSize d (CrdMemRef j)" using False by (simp add: cnt)
      show ?thesis
      proof (cases "reach stt (l + 1) j")
        case True
        let ?ps = "prodSz stt d (l + 1) j"
        from True have lj: "l + 1 \<le> j"
          and dn: "\<forall>i. l + 1 \<le> i \<and> i < j \<longrightarrow> isDenseLvl stt i"
          by (auto simp: reach_def isDenseLvl_def)
        from numParents_dense_run[OF lj dn, of d] numParents_dense_run[OF lj dn, of d1]
        have "numParents stt d1 j = numParents stt d j + ?ps"
          by (simp add: np1 cnt prodSz_cong[OF lv] algebra_simps del: numParents.simps)
        moreover from eff True have
          mr: "memRef d1 (PosMemRef j)
                 = fst (push_back (memSize d (PosMemRef j)) (memRef d (PosMemRef j)) 0 ?ps)"
          and sz: "memSize d1 (PosMemRef j) = memSize d (PosMemRef j) + ?ps" by simp_all
        moreover have "memSize d1 (PosMemRef j) \<le> length (memRef d1 (PosMemRef j))"
          unfolding mr sz by (rule push_back_length_ge)
        moreover have "occupied d1 (PosMemRef j) = occupied d (PosMemRef j) @ replicate ?ps 0"
          unfolding occupied_def mr sz by (rule push_back_take[OF r2])
        ultimately show ?thesis using r1 r3
          by (auto simp: posReadyLvl_def ms cj' list_all_iff)
      next
        case nr: False
        with eff have mr: "memRef d1 (PosMemRef j) = memRef d (PosMemRef j)"
          and sz: "memSize d1 (PosMemRef j) = memSize d (PosMemRef j)" by simp_all
        have np: "numParents stt d1 j = numParents stt d j"
        proof (cases "j \<le> l")
          case True
          then show ?thesis by (rule np_le)
        next
          case False
          then have lj: "l + 1 \<le> j" by simp
          from nr lj jn cj obtain i where i: "l + 1 \<le> i" "i < j" "\<not> isDenseDLT (getLvlType stt i)"
            by (auto simp: reach_def isCompressedLvl_def)
          from i(2) jn have "i < getLvlRank stt" by simp
          from denseOrUniqueCompressedD[OF sch this] i(3)
          have ci: "isCompressedLvl stt i" "\<not> isDenseLvl stt i"
            by (simp_all add: isCompressedLvl_def isDenseLvl_def)
          show ?thesis
            by (rule numParents_cong_above[OF ci i(2) lv]) (use i(1) in \<open>simp add: ms cnt\<close>)
        qed
        from r1 r2 r3 show ?thesis
          by (simp add: posReadyLvl_def ms cj' mr sz np occupied_def)
      qed
    qed
    from posReadyI[of stt d1, OF this] q lv show ?thesis by simp
  qed
qed

lemma posReady_cong:
  assumes "lvlSize d' = lvlSize d"
    "\<And>j. memSize d' (CrdMemRef j) = memSize d (CrdMemRef j)"
    "\<And>j. memSize d' (PosMemRef j) = memSize d (PosMemRef j)"
    "\<And>j. memRef d' (PosMemRef j) = memRef d (PosMemRef j)"
  shows "posReady stt d' = posReady stt d"
proof -
  have c: "crdMemSizeAtLvl stt d' j = crdMemSizeAtLvl stt d j" for j
    by (simp add: crdMemSizeAtLvl_eq assms(2))
  have "numParents stt d' j = numParents stt d j" for j
    by (rule numParents_cong[OF assms(1)]) (simp add: c)
  then show ?thesis
    by (simp add: posReady_def posReadyLvl_def occupied_def assms c)
qed

lemma genLevels_ready:
  "genLevels stt c l p e = Some (e', q) \<Longrightarrow> getLvlRank stt \<le> cooStart stt \<Longrightarrow>
   denseOrUniqueCompressed stt \<Longrightarrow> inBounds stt e c \<Longrightarrow> posReady stt e \<Longrightarrow>
   p < numParents stt e l \<Longrightarrow>
   posReady stt e' \<and> lvlSize e' = lvlSize e"
proof (induction stt c l p e rule: genLevels.induct)
  case (1 stt coords l parentPos desc)
  note step = "1.prems"(1)[unfolded genLevels.simps[of stt coords l parentPos desc]]
  note na = "1.prems"(2)
  note sch = "1.prems"(3)
  note ib = "1.prems"(4)
  note rd = "1.prems"(5)
  note pp = "1.prems"(6)
  show ?case
  proof (cases "l < getLvlRank stt")
    case False
    with step rd show ?thesis by simp
  next
    case lt: True
    note ty = denseOrUniqueCompressedD[OF sch lt]
    show ?thesis
    proof (cases "isCompressedDLT (getLvlType stt l)")
      case True
      with lt step obtain d1 pnext where g: "genCompressed stt desc coords parentPos l = Some (d1, pnext)"
        and r: "genLevels stt coords (l + 1) pnext d1 = Some (e', q)"
        by (auto split: option.splits)
      from True have cl: "isCompressedLvl stt l" by (simp add: isCompressedLvl_def)
      from genCompressed_ready[OF g na sch cl rd pp]
      have r1: "posReady stt d1" and p1: "pnext < numParents stt d1 (l + 1)"
        and lv: "lvlSize d1 = lvlSize desc" by simp_all
      from ib have ib1: "inBounds stt d1 coords" by (simp add: inBounds_cong[OF lv])
      from "1.IH"(1)[OF lt True g refl r na sch ib1 r1 p1] lv show ?thesis by simp
    next
      case nc: False
      with ty lt step have dn: "isDenseDLT (getLvlType stt l)"
        and r: "genLevels stt coords (l + 1)
             (sizeFromTensorAtLvl stt desc l * parentPos + coords ! l) desc = Some (e', q)"
        by (auto split: if_splits)
      from ty have ns: "\<not> isSingletonDLT (getLvlType stt l)" by simp
      from dn have dl: "isDenseLvl stt l" by (simp add: isDenseLvl_def)
      from inBoundsD[OF ib lt dn] have cb: "coords ! l < sizeFromTensorAtLvl stt desc l" .
      let ?s = "sizeFromTensorAtLvl stt desc l"
      from pp have "parentPos + 1 \<le> numParents stt desc l" by simp
      then have "?s * (parentPos + 1) \<le> ?s * numParents stt desc l" by (rule mult_le_mono2)
      with cb have "?s * parentPos + coords ! l < numParents stt desc l * ?s"
        by (simp add: algebra_simps)
      with dl have p1: "?s * parentPos + coords ! l < numParents stt desc (l + 1)" by simp
      from "1.IH"(3)[OF lt nc ns dn r na sch ib rd p1] show ?thesis .
    qed
  qed
qed

lemma insert_ready:
  assumes i: "genImplementation stt d c v = Some d'"
    and na: "getLvlRank stt \<le> cooStart stt" and sch: "denseOrUniqueCompressed stt"
    and ib: "inBounds stt d c" and rd: "posReady stt d"
  shows "posReady stt d' \<and> lvlSize d' = lvlSize d"
proof -
  from i obtain e p where g: "genLevels stt c 0 0 d = Some (e, p)"
    and r: "d' = createPushback stt e ValMemRef v 1 \<or> storeField e ValMemRef p v = Some d'"
    by (auto simp: genImplementation_def split: if_splits option.splits)
  from genLevels_ready[OF g na sch ib rd] have re: "posReady stt e" and lv: "lvlSize e = lvlSize d"
    by simp_all
  from r show ?thesis
  proof
    assume d': "d' = createPushback stt e ValMemRef v 1"
    have "posReady stt d' = posReady stt e"
      by (rule posReady_cong)
         (simp_all add: d' createPushback_memSize createPushback_memRef_other)
    with re lv d' show ?thesis by simp
  next
    assume s: "storeField e ValMemRef p v = Some d'"
    have "posReady stt d' = posReady stt e"
      by (rule posReady_cong)
         (simp_all add: storeField_lvlSize[OF s] storeField_memSize[OF s] storeField_memRef[OF s])
    with re lv storeField_lvlSize[OF s] show ?thesis by simp
  qed
qed

lemma insertAll_ready:
  "insertAll stt d ops = Some d' \<Longrightarrow> getLvlRank stt \<le> cooStart stt \<Longrightarrow>
   denseOrUniqueCompressed stt \<Longrightarrow> list_all (\<lambda>cv. inBounds stt d (fst cv)) ops \<Longrightarrow>
   posReady stt d \<Longrightarrow> posReady stt d' \<and> lvlSize d' = lvlSize d"
proof (induction ops arbitrary: d)
  case Nil
  then show ?case by simp
next
  case (Cons a ops)
  obtain c v where a: "a = (c, v)" by (cases a)
  from Cons.prems(1) a obtain d1 where i: "genImplementation stt d c v = Some d1"
    and r: "insertAll stt d1 ops = Some d'" by (auto split: option.splits)
  from Cons.prems(4) a have ib: "inBounds stt d c"
    and ibs: "list_all (\<lambda>cv. inBounds stt d (fst cv)) ops" by simp_all
  from insert_ready[OF i Cons.prems(2,3) ib Cons.prems(5)]
  have r1: "posReady stt d1" and lv: "lvlSize d1 = lvlSize d" by simp_all
  from ibs have ibs1: "list_all (\<lambda>cv. inBounds stt d1 (fst cv)) ops"
    by (simp add: inBounds_cong[OF lv])
  from Cons.IH[OF r Cons.prems(2,3) ibs1 r1] lv show ?case by simp
qed

lemma alloc_ready:
  assumes al: "createAllocFields stt dynSizes sizeHint = Some d"
    and na: "getLvlRank stt \<le> cooStart stt" and sch: "denseOrUniqueCompressed stt"
  shows "posReady stt d"
proof (rule posReadyI)
  fix j assume jn: "j < getLvlRank stt" and cj: "isCompressedLvl stt j"
  note pl = denseOrUniqueCompressed_posLayout[OF sch na]
  from jn have jt: "j < tracked stt" by (simp add: denseOrUniqueCompressed_tracked[OF sch])
  note f = createAllocFields_positions[OF al pl jt cj]
  from f(3) have "list_all (\<lambda>x. x \<le> crdMemSizeAtLvl stt d j) (occupied d (PosMemRef j))"
    by (auto simp: list_all_iff)
  with f(1,2) show "posReadyLvl stt d j" by (simp add: posReadyLvl_def)
qed

lemma genCompressed_present_intro:
  assumes "l < getLvlRank stt" "length c = getLvlRank stt" "isUniqueLvl stt l"
    "getLvlRank stt \<le> cooStart stt"
    "p + 1 < length (memRef F (PosMemRef l))"
    "memRef F (PosMemRef l) ! p < memRef F (PosMemRef l) ! (p + 1)"
    "memRef F (PosMemRef l) ! (p + 1) - 1 < length (memRef F (CrdMemRef l))"
    "memRef F (CrdMemRef l) ! (memRef F (PosMemRef l) ! (p + 1) - 1) = c ! l"
  shows "genCompressed stt F c p l = Some (F, memRef F (PosMemRef l) ! (p + 1) - 1)"
  using assms
  by (simp add: genCompressed_def genLoad_def genCompressedLookup_eq
        stride_noAOS crdLvl_noAOS)

lemma genCompressed_frame_above:
  assumes g: "genCompressed stt d c p l = Some (d1, q)"
    and na: "getLvlRank stt \<le> cooStart stt"
  shows "lvlSize d1 = lvlSize d
        \<and> (\<forall>k<l. memRef d1 (PosMemRef k) = memRef d (PosMemRef k)
           \<and> memSize d1 (PosMemRef k) = memSize d (PosMemRef k)
           \<and> memRef d1 (CrdMemRef k) = memRef d (CrdMemRef k)
           \<and> memSize d1 (CrdMemRef k) = memSize d (CrdMemRef k))"
  using g
proof (cases rule: genCompressed_effect)
  case present
  then show ?thesis by simp
next
  case (absent a)
  have "memRef d1 (PosMemRef k) = memRef d (PosMemRef k)
           \<and> memSize d1 (PosMemRef k) = memSize d (PosMemRef k)
           \<and> memRef d1 (CrdMemRef k) = memRef d (CrdMemRef k)
           \<and> memSize d1 (CrdMemRef k) = memSize d (CrdMemRef k)" if k: "k < l" for k
  proof -
    from k have nr: "\<not> reach stt (l + 1) k" by (simp add: reach_def)
    from k have kl: "k \<noteq> l" "k \<noteq> crdLvl stt l" by (simp_all add: crdLvl_noAOS[OF na])
    from absent(10)[OF kl(1)] nr absent(9)[OF kl(2)] absent(7)[of k] kl(2)
    show ?thesis by simp
  qed
  with absent(4) show ?thesis by simp
qed

lemma genLevels_frame:
  "genLevels stt c l p e = Some (e', q) \<Longrightarrow> getLvlRank stt \<le> cooStart stt \<Longrightarrow>
   lvlSize e' = lvlSize e
   \<and> (\<forall>k<l. memRef e' (PosMemRef k) = memRef e (PosMemRef k)
           \<and> memSize e' (PosMemRef k) = memSize e (PosMemRef k)
           \<and> memRef e' (CrdMemRef k) = memRef e (CrdMemRef k)
           \<and> memSize e' (CrdMemRef k) = memSize e (CrdMemRef k))"
proof (induction stt c l p e rule: genLevels.induct)
  case (1 stt coords l parentPos desc)
  note step = "1.prems"(1)[unfolded genLevels.simps[of stt coords l parentPos desc]]
  note na = "1.prems"(2)
  show ?case
  proof (cases "l < getLvlRank stt")
    case False
    with step show ?thesis by simp
  next
    case lt: True
    show ?thesis
    proof (cases "isCompressedDLT (getLvlType stt l)")
      case True
      with lt step obtain d1 pnext where g: "genCompressed stt desc coords parentPos l = Some (d1, pnext)"
        and r: "genLevels stt coords (l + 1) pnext d1 = Some (e', q)"
        by (auto split: option.splits)
      note ih = "1.IH"(1)[OF lt True g refl r na]
      from genCompressed_frame_above[OF g na] ih show ?thesis by simp
    next
      case nc: False
      show ?thesis
      proof (cases "isSingletonDLT (getLvlType stt l)")
        case True
        with lt nc step have r: "genLevels stt coords (l + 1) parentPos
             (createPushback stt desc (CrdMemRef l) (coords ! l) 1) = Some (e', q)" by simp
        from "1.IH"(2)[OF lt nc True r na]
        show ?thesis
          by (simp add: createPushback_memRef_other createPushback_memSize crdLvl_noAOS[OF na])
      next
        case ns: False
        with lt nc step have dn: "isDenseDLT (getLvlType stt l)"
          and r: "genLevels stt coords (l + 1)
             (sizeFromTensorAtLvl stt desc l * parentPos + coords ! l) desc = Some (e', q)"
          by (auto split: if_splits)
        from "1.IH"(3)[OF lt nc ns dn r na] show ?thesis by simp
      qed
    qed
  qed
qed

lemma genLevels_replay:
  "genLevels stt c l p e = Some (e', q) \<Longrightarrow> getLvlRank stt \<le> cooStart stt \<Longrightarrow>
   denseOrUniqueCompressed stt \<Longrightarrow> inBounds stt e c \<Longrightarrow> posReady stt e \<Longrightarrow>
   p < numParents stt e l \<Longrightarrow>
   lvlSize F = lvlSize e' \<Longrightarrow>
   (\<forall>k\<ge>l. memRef F (PosMemRef k) = memRef e' (PosMemRef k)
         \<and> memRef F (CrdMemRef k) = memRef e' (CrdMemRef k)
         \<and> memSize F (CrdMemRef k) = memSize e' (CrdMemRef k)) \<Longrightarrow>
   genLevels stt c l p F = Some (F, q)"
proof (induction stt c l p e rule: genLevels.induct)
  case (1 stt coords l parentPos desc)
  note step = "1.prems"(1)[unfolded genLevels.simps[of stt coords l parentPos desc]]
  note na = "1.prems"(2)
  note sch = "1.prems"(3)
  note ib = "1.prems"(4)
  note rd = "1.prems"(5)
  note pp = "1.prems"(6)
  note lv = "1.prems"(7)
  note ag = "1.prems"(8)
  show ?case
  proof (cases "l < getLvlRank stt")
    case False
    with step have "parentPos = q" by simp
    with False show ?thesis by (subst genLevels.simps) simp
  next
    case lt: True
    note ty = denseOrUniqueCompressedD[OF sch lt]
    have ag1: "\<forall>k\<ge>l + 1. memRef F (PosMemRef k) = memRef e' (PosMemRef k)
         \<and> memRef F (CrdMemRef k) = memRef e' (CrdMemRef k)
         \<and> memSize F (CrdMemRef k) = memSize e' (CrdMemRef k)"
      using ag by simp
    show ?thesis
    proof (cases "isCompressedDLT (getLvlType stt l)")
      case True
      with lt step obtain d1 pnext where g: "genCompressed stt desc coords parentPos l = Some (d1, pnext)"
        and r: "genLevels stt coords (l + 1) pnext d1 = Some (e', q)"
        by (auto split: option.splits)
      from True ty have uq: "isUniqueLvl stt l" by simp
      from True have cl: "isCompressedLvl stt l" by (simp add: isCompressedLvl_def)
      from genCompressed_SomeD[OF g] have lc: "length coords = getLvlRank stt" by simp
      note fr = genLevels_frame[OF r na]
      from fr ag have Fl: "memRef F (PosMemRef l) = memRef d1 (PosMemRef l)"
        "memRef F (CrdMemRef l) = memRef d1 (CrdMemRef l)"
        by simp_all
      from genCompressed_ready[OF g na sch cl rd pp]
      have r1: "posReady stt d1" and p1: "pnext < numParents stt d1 (l + 1)"
        and lv1: "lvlSize d1 = lvlSize desc" by simp_all
      from ib have ib1: "inBounds stt d1 coords" by (simp add: inBounds_cong[OF lv1])
      note ih = "1.IH"(1)[OF lt True g refl r na sch ib1 r1 p1 lv ag1]
      from pp have ple: "parentPos \<le> numParents stt desc l" by simp
      note bl = posReadyLvl_nth[OF posReadyD[OF rd lt cl] ple,
                  unfolded crdMemSizeAtLvl_noAOS[OF na]]
      have "genCompressed stt F coords parentPos l = Some (F, pnext)"
        using g
      proof (cases rule: genCompressed_effect)
        case present
        note p6 = present(6)[unfolded crdLvl_noAOS[OF na] stride_noAOS[OF na]]
        note p7 = present(7)[unfolded crdLvl_noAOS[OF na] stride_noAOS[OF na]]
        from genCompressed_present_intro[OF lt lc uq na, of parentPos F] present(1-5) p6 p7 Fl
        show ?thesis by simp
      next
        case (absent a)
        let ?pos = "memRef desc (PosMemRef l)"
        let ?m = "memSize desc (CrdMemRef l)"
        note ms = crdMemSizeAtLvl_noAOS[OF na]
        from absent(1) bl(2) have am: "a \<le> ?m" by (simp add: ms split: if_splits)
        have P: "memRef F (PosMemRef l) = ?pos[parentPos := a, parentPos + 1 := ?m + 1]"
          using Fl absent(5) by (simp add: ms)
        have C: "memRef F (CrdMemRef l) = fst (push_back ?m (memRef desc (CrdMemRef l)) (coords ! l) 1)"
          using Fl absent(8) by (simp add: crdLvl_noAOS[OF na])
        have p1: "memRef F (PosMemRef l) ! (parentPos + 1) = ?m + 1"
          and p0: "memRef F (PosMemRef l) ! parentPos = a"
          and pl: "parentPos + 1 < length (memRef F (PosMemRef l))"
          using absent(2) by (simp_all add: P)
        have c1: "?m < length (memRef F (CrdMemRef l))"
          using push_back_length_ge[of ?m 1 "memRef desc (CrdMemRef l)" "coords ! l"] by (simp add: C)
        have c2: "memRef F (CrdMemRef l) ! ?m = coords ! l"
          using push_back_nth_new[of ?m ?m 1 "memRef desc (CrdMemRef l)" "coords ! l"] by (simp add: C)
        from genCompressed_present_intro[OF lt lc uq na pl] p0 p1 am c1 c2 absent(3)
        show ?thesis by (simp add: ms)
      qed
      with ih lt True show ?thesis
        by (simp add: genLevels.simps[of stt coords l parentPos F])
    next
      case nc: False
      with ty lt step have dn: "isDenseDLT (getLvlType stt l)"
        and r: "genLevels stt coords (l + 1)
             (sizeFromTensorAtLvl stt desc l * parentPos + coords ! l) desc = Some (e', q)"
        by (auto split: if_splits)
      from ty have ns: "\<not> isSingletonDLT (getLvlType stt l)" by simp
      from dn have dl: "isDenseLvl stt l" by (simp add: isDenseLvl_def)
      from inBoundsD[OF ib lt dn] have cb: "coords ! l < sizeFromTensorAtLvl stt desc l" .
      let ?s = "sizeFromTensorAtLvl stt desc l"
      from pp have "parentPos + 1 \<le> numParents stt desc l" by simp
      then have "?s * (parentPos + 1) \<le> ?s * numParents stt desc l" by (rule mult_le_mono2)
      with cb have "?s * parentPos + coords ! l < numParents stt desc l * ?s"
        by (simp add: algebra_simps)
      with dl have p1: "?s * parentPos + coords ! l < numParents stt desc (l + 1)" by simp
      note ih = "1.IH"(3)[OF lt nc ns dn r na sch ib rd p1 lv ag1]
      from genLevels_frame[OF r na] lv have "lvlSize F = lvlSize desc" by simp
      from sizeFromTensorAtLvl_cong[OF this] ih lt nc ns dn show ?thesis
        by (simp add: genLevels.simps[of stt coords l parentPos F])
    qed
  qed
qed

subsection \<open>The concrete scenario\<close>

text \<open>
  C1. On the rank-2 scheme with a dense level above a compressed (ordered, unique) level
  and dimensions (3,3), allocation, then the insertions (0,0)=1, (0,2)=2 and (2,1)=3 in
  this order, then finalization succeed, and the occupied parts of the buffers are the
  position array [0,2,2,3], the coordinate array [0,2,1] and the value array [1,2,3].
\<close>

theorem scenario_dense_compressed:
  "\<exists>desc0 desc1 desc2.
      createAllocFields matrix33 [] None = Some desc0
    \<and> insertAll matrix33 desc0 [([0, 0], 1), ([0, 2], 2), ([2, 1], 3)] = Some desc1
    \<and> genEndInsert matrix33 desc1 = Some desc2
    \<and> occupied desc2 (PosMemRef 1) = [0, 2, 2, 3]
    \<and> occupied desc2 (CrdMemRef 1) = [0, 2, 1]
    \<and> occupied desc2 ValMemRef = [1, 2, 3]"
proof -
  have "case createAllocFields matrix33 [] None of None \<Rightarrow> False | Some desc0 \<Rightarrow>
        (case insertAll matrix33 desc0 [([0, 0], 1), ([0, 2], 2), ([2, 1], 3)] of
           None \<Rightarrow> False
         | Some desc1 \<Rightarrow>
        (case genEndInsert matrix33 desc1 of None \<Rightarrow> False | Some desc2 \<Rightarrow>
           occupied desc2 (PosMemRef 1) = [0, 2, 2, 3]
         \<and> occupied desc2 (CrdMemRef 1) = [0, 2, 1]
         \<and> occupied desc2 ValMemRef = [1, 2, 3]))"
    by code_simp
  then show ?thesis by (auto split: option.splits)
qed

subsection \<open>The value array under insertion\<close>

text \<open>
  C10. On a scheme whose last level is not dense, every insertion that returns lets the
  occupied length of the value array grow by exactly one and appends the supplied value
  at its end (the occupied length being within the capacity, as the specifier keeps it).
  Nothing is asked of the coordinates: the value is appended also when the tuple is
  already present at a unique compressed level.
\<close>

theorem insert_appends_value:
  assumes "genImplementation stt desc coords val = Some desc'"
    and "\<not> isDenseLvl stt (getLvlRank stt - 1)"
    and "memSize desc ValMemRef \<le> length (memRef desc ValMemRef)"
  shows "memSize desc' ValMemRef = memSize desc ValMemRef + 1
       \<and> occupied desc' ValMemRef = occupied desc ValMemRef @ [val]"
proof -
  from assms(1,2) obtain d1 p where g: "genLevels stt coords 0 0 desc = Some (d1, p)"
    and r: "desc' = createPushback stt d1 ValMemRef val 1"
    by (auto simp: genImplementation_def split: if_splits option.splits)
  from genLevels_val[OF g assms(2)] have v: "memRef d1 ValMemRef = memRef desc ValMemRef"
     "memSize d1 ValMemRef = memSize desc ValMemRef" by auto
  with assms(3) have "memSize d1 (getMemRefFieldIndex stt ValMemRef) \<le> length (memRef d1 (getMemRefFieldIndex stt ValMemRef))"
    by simp
  from createPushback_occupied[OF this, of val 1] v r show ?thesis
    by (simp add: createPushback_memSize occupied_def)
qed


text \<open>
  The case of a tuple that is already present: (0,0) is inserted a second time into the
  matrix that holds 1 at (0,0), and the value array becomes [1, 7].
\<close>

theorem insert_appends_value_witness:
  "genImplementation matrix33 matrix33Once [0, 0] 7 \<noteq> None
   \<and> \<not> isDenseLvl matrix33 (getLvlRank matrix33 - 1)
   \<and> memSize matrix33Once ValMemRef \<le> length (memRef matrix33Once ValMemRef)
   \<and> occupied matrix33Once (CrdMemRef 1) = [0]
   \<and> occupied (the (genImplementation matrix33 matrix33Once [0, 0] 7)) (CrdMemRef 1) = [0]
   \<and> occupied (the (genImplementation matrix33 matrix33Once [0, 0] 7)) ValMemRef = [1, 7]"
proof -
  have "case genImplementation matrix33 matrix33Once [0, 0] 7 of
          None \<Rightarrow> False | Some desc' \<Rightarrow> True"
    by code_simp
  then have h0: "genImplementation matrix33 matrix33Once [0, 0] 7 \<noteq> None"
    by (simp split: option.splits)
  then have h1: "genImplementation matrix33 matrix33Once [0, 0] 7
              = Some (the (genImplementation matrix33 matrix33Once [0, 0] 7))"
    by simp
  have h2: "\<not> isDenseLvl matrix33 (getLvlRank matrix33 - 1)"
    by code_simp
  have h3: "memSize matrix33Once ValMemRef \<le> length (memRef matrix33Once ValMemRef)"
    by code_simp
  have h4: "occupied matrix33Once ValMemRef = [1]" "occupied matrix33Once (CrdMemRef 1) = [0]"
    "occupied (the (genImplementation matrix33 matrix33Once [0, 0] 7)) (CrdMemRef 1) = [0]"
    by code_simp+
  from insert_appends_value[OF h1 h2 h3] h0 h2 h3 h4 show ?thesis by simp
qed
subsection \<open>A compressed level that is not unique\<close>




subsection \<open>Finalization\<close>

text \<open>
  The repaired array slot by slot: the first slot and every slot that does not hold zero
  keep their value, and a later slot that holds zero has the value of the repaired slot
  before it.
\<close>

lemma patchFrom_nth:
  "i < length xs \<Longrightarrow>
   patchFrom prev xs ! i =
     (if xs ! i \<noteq> 0 then xs ! i else if i = 0 then prev else patchFrom prev xs ! (i - 1))"
proof (induction xs arbitrary: prev i)
  case Nil
  then show ?case by simp
next
  case (Cons x xs)
  show ?case
  proof (cases i)
    case 0
    then show ?thesis by simp
  next
    case (Suc j)
    with Cons.prems have j: "j < length xs" by simp
    show ?thesis
    proof (cases j)
      case 0
      with Suc j Cons.IH[OF j, of x] Cons.IH[OF j, of prev] show ?thesis by auto
    next
      case (Suc k)
      with \<open>i = Suc j\<close> j Cons.IH[OF j, of x] Cons.IH[OF j, of prev] show ?thesis by auto
    qed
  qed
qed

lemma patchPositions_nth:
  "i < length ps \<Longrightarrow>
   patchPositions ps ! i =
     (if i = 0 \<or> ps ! i \<noteq> 0 then ps ! i else patchPositions ps ! (i - 1))"
proof (cases ps)
  case Nil
  then show "i < length ps \<Longrightarrow> ?thesis" by simp
next
  case (Cons x xs)
  assume "i < length ps"
  with Cons show ?thesis
    using patchFrom_nth[of "i - 1" xs x]
    by (cases i) (auto simp: patchPositions_def nth_Cons')
qed

text \<open>
  C4. Finalization returns exactly when no level has hi/lo position pairs and every
  compressed level below level 0 has a position buffer that holds its occupied length;
  it then leaves the specifier and every buffer as they are, except that in the occupied
  part of the position array of every compressed level below level 0 each slot that
  holds zero receives the value of the slot before it. The position array of a compressed
  level 0 is not modified.
\<close>

theorem finalize_patches_positions:
  "genEndInsert stt desc =
     (if canFinalize stt desc then Some (desc\<lparr>memRef := patchedField stt desc\<rparr>) else None)"
  using endInsertLoop_eq[of 0 stt desc]
  by (simp add: genEndInsert_def canFinalize_def patchedBelow_0 patchedBelow_rank)


subsection \<open>Allocation\<close>

text \<open>
  C9. Allocation (of a sparse tensor type, with no tensor to copy) with a number of
  dynamic sizes that differs from the number of dynamic dimensions of the type fails
  with the reported error, which carries the two numbers. The result holds no
  descriptor: the check stands before the allocation of the fields, which is not run
  (and would itself stop at its assertion on the same numbers).
\<close>

theorem alloc_rejects_wrong_number_of_sizes:
  assumes "hasEncoding stt" and "length dynSizes \<noteq> getNumDynamicDims stt"
  shows "allocTensor stt None dynSizes sizeHint
           = Inl (WrongNumberOfDynamicSizes (length dynSizes) (getNumDynamicDims stt))
       \<and> createAllocFields stt dynSizes sizeHint = None"
  using assms by (simp add: allocTensor_def createAllocFields_def)

theorem alloc_rejects_wrong_number_of_sizes_witness:
  "hasEncoding dynMatrix \<and> length [5 :: nat] \<noteq> getNumDynamicDims dynMatrix
   \<and> allocTensor dynMatrix None [5] None = Inl (WrongNumberOfDynamicSizes 1 2)
   \<and> isl (allocTensor dynMatrix None [5, 7] None) = False"
proof -
  have h1: "hasEncoding dynMatrix" by code_simp
  have h2: "length [5 :: nat] \<noteq> getNumDynamicDims dynMatrix" by code_simp
  have h3: "getNumDynamicDims dynMatrix = 2" by code_simp
  have h4: "isl (allocTensor dynMatrix None [5, 7] None) = False" by code_simp
  from alloc_rejects_wrong_number_of_sizes[OF h1 h2, of None] h1 h2 h3 h4
  show ?thesis by simp
qed

subsection \<open>Scatter and gather of a row\<close>

text \<open>
  C6, as amended. For a row of coordinate-value pairs with distinct coordinates within
  the size of the innermost level, on a scheme whose innermost level is ordered (or for
  pairs that arrive in ascending order), the accumulation into the expanded scratch
  buffers followed by compression gives the same result as the insertion of the pairs
  one at a time in sorted order: the same descriptor, or no result on both sides. When
  it returns, the values and the filled switch are back to all zero and all false.
\<close>

theorem scatter_compress_equals_sorted_inserts:
  assumes "hasEncoding stt"
    and "distinct (map fst row)"
    and "list_all (\<lambda>cv. fst cv
            < sizeFromTensorAtDim stt desc (toOrigDim stt (getLvlRank stt - 1))) row"
    and "isOrderedLvl stt (getLvlRank stt - 1) \<or> sorted (map fst row)"
  shows "map_option fst (insertRowScattered stt desc lvlCoords reduce row)
           = insertRowSorted stt desc lvlCoords row
       \<and> (case insertRowScattered stt desc lvlCoords reduce row of
            None \<Rightarrow> True
          | Some (desc', b) \<Rightarrow>
              expValues b = replicate (sizeFromTensorAtDim stt desc
                                         (toOrigDim stt (getLvlRank stt - 1))) 0
            \<and> expFilled b = replicate (sizeFromTensorAtDim stt desc
                                         (toOrigDim stt (getLvlRank stt - 1))) False)"
proof -
  define sz where "sz = sizeFromTensorAtDim stt desc (toOrigDim stt (getLvlRank stt - 1))"
  let ?ks = "map fst row"
  define b0 where "b0 = \<lparr>expValues = replicate sz 0, expFilled = replicate sz False,
              expAdded = createAllocation sz, expCount = 0\<rparr>"
  have ex: "expandOp stt desc = Some b0"
    using assms(1) by (simp add: expandOp_def Let_def b0_def sz_def)
  have bound: "\<forall>k \<in> set ([] @ ?ks). k < sz"
    using assms(3) by (auto simp: list_all_iff sz_def)
  have "\<exists>b'. scatterAll reduce b0 row = Some b'
     \<and> length (expValues b') = sz \<and> length (expFilled b') = sz \<and> length (expAdded b') = sz
     \<and> expCount b' = length ([]::nat list) + length row
     \<and> take (expCount b') (expAdded b') = [] @ ?ks
     \<and> (\<forall>k < sz. expFilled b' ! k = (k \<in> set ([] @ ?ks)))
     \<and> (\<forall>k < sz. expValues b' ! k =
            (case map_of row k of Some v \<Rightarrow> v | None \<Rightarrow> expValues b0 ! k))"
  proof (rule scatterAll_distinct[where seen = "[]" and kvs = row and sz = sz and b = b0])
    show "distinct ([] @ ?ks)" using assms(2) by simp
    show "\<forall>k\<in>set ([] @ ?ks). k < sz" by (rule bound)
    show "length (expValues b0) = sz" "length (expFilled b0) = sz"
      "length (expAdded b0) = sz" by (simp_all add: createAllocation_def b0_def)
    show "expCount b0 = length ([]::nat list)" by (simp add: b0_def)
    show "take (length ([]::nat list)) (expAdded b0) = []" by simp
    show "\<forall>k < sz. expFilled b0 ! k = (k \<in> set [])" by (simp add: b0_def)
  qed
  then obtain b' where b0': "scatterAll reduce b0 row = Some b'"
     "length (expValues b') = sz" "length (expFilled b') = sz" "length (expAdded b') = sz"
     "expCount b' = length row"
     "take (expCount b') (expAdded b') = ?ks"
     "\<forall>k < sz. expFilled b' ! k = (k \<in> set ?ks)"
     "\<forall>k < sz. expValues b' ! k =
            (case map_of row k of Some v \<Rightarrow> v | None \<Rightarrow> expValues b0 ! k)"
    by auto
  have b8: "\<forall>k < sz. expValues b' ! k = (case map_of row k of Some v \<Rightarrow> v | None \<Rightarrow> 0)"
    using b0'(8) by (auto simp: b0_def split: option.splits)
  note b' = b0'(1-7) b8
  define A where "A = (if isOrderedLvl stt (getLvlRank stt - 1)
            then sortOp (expCount b') (expAdded b') else expAdded b')"
  let ?L = "sort ?ks"
  have cnt: "expCount b' \<le> length (expAdded b')"
    using b'(5,6) by (metis length_map length_take min.cobounded2 min.commute)
  have tk: "take (expCount b') A = ?L"
  proof (cases "isOrderedLvl stt (getLvlRank stt - 1)")
    case True
    with cnt b'(6) show ?thesis by (simp add: take_sortOp A_def)
  next
    case False
    with assms(4) have "sorted ?ks" by simp
    then have "sort ?ks = ?ks" by (simp add: sort_key_id_if_sorted)
    with False b'(6) show ?thesis by (simp add: A_def)
  qed
  have lenA: "expCount b' \<le> length A" using cnt by (simp add: A_def)
  have dL: "distinct (drop 0 (take (expCount b') A))" using tk assms(2) by simp
  have bL: "\<forall>k \<in> set (drop 0 (take (expCount b') A)).
              k < length (expValues b') \<and> k < length (expFilled b')"
    using tk bound b'(2,3) by simp
  have loop: "compressLoop stt lvlCoords A 0 (expCount b') (desc, expValues b', expFilled b') =
     (case insertAll stt desc (map (\<lambda>k. (lvlCoords @ [k], expValues b' ! k)) ?L) of
        None \<Rightarrow> None
      | Some d' \<Rightarrow> Some (d', fold (\<lambda>k W. W[k := 0]) ?L (expValues b'),
                         fold (\<lambda>k G. G[k := False]) ?L (expFilled b')))"
    using compressLoop_spec[OF _ lenA dL bL, of stt lvlCoords desc] by (simp only: drop_0 tk le0)
  have vals: "map (\<lambda>k. (lvlCoords @ [k], expValues b' ! k)) ?L
       = map (\<lambda>cv. (lvlCoords @ [fst cv], snd cv)) (sort_key fst row)"
  proof -
    have "map (\<lambda>k. (lvlCoords @ [k], expValues b' ! k)) ?L
        = map (\<lambda>k. (lvlCoords @ [k], the (map_of row k))) ?L"
    proof (rule map_cong[OF refl])
      fix k assume "k \<in> set ?L"
      then have k: "k \<in> set ?ks" by simp
      with bound have "k < sz" by auto
      moreover from k obtain v where "map_of row k = Some v"
        by (metis map_of_eq_None_iff not_Some_eq set_map)
      ultimately show "(lvlCoords @ [k], expValues b' ! k) = (lvlCoords @ [k], the (map_of row k))"
        using b'(8) by simp
    qed
    also have "\<dots> = map (\<lambda>cv. (lvlCoords @ [fst cv], snd cv)) (sort_key fst row)"
      by (simp add: sort_key_by_lookup[OF assms(2)] comp_def)
    finally show ?thesis .
  qed
  have rv: "fold (\<lambda>k W. W[k := 0]) ?L (expValues b') = replicate sz 0"
  proof (rule nth_equalityI)
    show "length (fold (\<lambda>k W. W[k := 0]) ?L (expValues b')) = length (replicate sz (0::nat))"
      using b'(2) by simp
  next
    fix k assume "k < length (fold (\<lambda>k W. W[k := 0]) ?L (expValues b'))"
    then have k: "k < sz" using b'(2) by simp
    then have "fold (\<lambda>k W. W[k := 0]) ?L (expValues b') ! k
        = (if k \<in> set ?L then 0 else expValues b' ! k)"
      using fold_reset_nth[of k "expValues b'" 0 ?L] b'(2) by simp
    also have "\<dots> = 0"
    proof (cases "k \<in> set ?ks")
      case True then show ?thesis by simp
    next
      case False
      then have "map_of row k = None" by (simp add: map_of_eq_None_iff)
      with b'(8) k False show ?thesis by simp
    qed
    finally show "fold (\<lambda>k W. W[k := 0]) ?L (expValues b') ! k = replicate sz 0 ! k"
      using k by simp
  qed
  have rf: "fold (\<lambda>k G. G[k := False]) ?L (expFilled b') = replicate sz False"
  proof (rule nth_equalityI)
    show "length (fold (\<lambda>k G. G[k := False]) ?L (expFilled b')) = length (replicate sz False)"
      using b'(3) by simp
  next
    fix k assume "k < length (fold (\<lambda>k G. G[k := False]) ?L (expFilled b'))"
    then have k: "k < sz" using b'(3) by simp
    then have "fold (\<lambda>k G. G[k := False]) ?L (expFilled b') ! k
        = (if k \<in> set ?L then False else expFilled b' ! k)"
      using fold_reset_nth[of k "expFilled b'" False ?L] b'(3) by simp
    also have "\<dots> = False" using b'(7) k by simp
    finally show "fold (\<lambda>k G. G[k := False]) ?L (expFilled b') ! k = replicate sz False ! k"
      using k by simp
  qed
  have co: "compressOp stt desc lvlCoords b' =
     (case compressLoop stt lvlCoords A 0 (expCount b') (desc, expValues b', expFilled b') of
        None \<Rightarrow> None
      | Some (desc', values', filled') \<Rightarrow>
          Some (desc', b'\<lparr>expValues := values', expFilled := filled', expAdded := A\<rparr>))"
    unfolding compressOp_def Let_def A_def ..
  have scat: "insertRowScattered stt desc lvlCoords reduce row =
     (case insertAll stt desc (map (\<lambda>cv. (lvlCoords @ [fst cv], snd cv)) (sort_key fst row)) of
        None \<Rightarrow> None
      | Some d' \<Rightarrow> Some (d', b'\<lparr>expValues := replicate sz 0, expFilled := replicate sz False,
                                expAdded := A\<rparr>))"
    by (simp add: insertRowScattered_def ex b'(1) co loop vals rv rf split: option.splits)
  show ?thesis
    unfolding scat insertRowSorted_def sz_def[symmetric] by (simp split: option.splits)
qed


text \<open>
  Row 1 of the 3 by 3 matrix, whose innermost level is ordered, with the pairs arriving
  out of order.
\<close>

theorem scatter_compress_equals_sorted_inserts_witness:
  "hasEncoding matrix33
   \<and> distinct (map fst [(2 :: nat, 5 :: nat), (0, 7)])
   \<and> list_all (\<lambda>cv. fst cv
          < sizeFromTensorAtDim matrix33 matrix33Empty (toOrigDim matrix33 (getLvlRank matrix33 - 1)))
        [(2, 5), (0, 7)]
   \<and> isOrderedLvl matrix33 (getLvlRank matrix33 - 1)
   \<and> map_option fst (insertRowScattered matrix33 matrix33Empty [1] (+) [(2, 5), (0, 7)])
       = insertRowSorted matrix33 matrix33Empty [1] [(2, 5), (0, 7)]
   \<and> map_option (\<lambda>d. occupied d (CrdMemRef 1))
         (insertRowSorted matrix33 matrix33Empty [1] [(2, 5), (0, 7)]) = Some [0, 2]"
proof -
  have h1: "hasEncoding matrix33" by code_simp
  have h2: "distinct (map fst [(2 :: nat, 5 :: nat), (0, 7)])" by simp
  have h3: "list_all (\<lambda>cv. fst cv
          < sizeFromTensorAtDim matrix33 matrix33Empty (toOrigDim matrix33 (getLvlRank matrix33 - 1)))
        [(2, 5), (0, 7)]" by code_simp
  have h4: "isOrderedLvl matrix33 (getLvlRank matrix33 - 1)" by code_simp
  have h5: "map_option (\<lambda>d. occupied d (CrdMemRef 1))
         (insertRowSorted matrix33 matrix33Empty [1] [(2, 5), (0, 7)]) = Some [0, 2]"
    by code_simp
  from scatter_compress_equals_sorted_inserts[OF h1 h2 h3 disjI1[OF h4], of "[1]" "(+)"]
    h1 h2 h3 h4 h5
  show ?thesis by blast
qed

text \<open>
  C6 as stated fails on a scheme whose innermost level is not ordered: compression then
  inserts the coordinates in the order in which they arrived. On the vector with one
  compressed level that is not ordered, the pairs (2,5) and (0,7) give the coordinates
  [0,2] and the values [7,5] when inserted in sorted order, and the coordinates [2,0] and
  the values [5,7] through expansion and compression.
\<close>

theorem scatter_unordered_counterexample:
  "distinct (map fst [(2 :: nat, 5 :: nat), (0, 7)])
   \<and> map_option (\<lambda>d. (occupied d (CrdMemRef 0), occupied d ValMemRef))
         (insertRowSorted unorderedVector unorderedVectorEmpty [] [(2, 5), (0, 7)])
       = Some ([0, 2], [7, 5])
   \<and> map_option (\<lambda>r. (occupied (fst r) (CrdMemRef 0), occupied (fst r) ValMemRef))
         (insertRowScattered unorderedVector unorderedVectorEmpty [] (+) [(2, 5), (0, 7)])
       = Some ([2, 0], [5, 7])
   \<and> map_option fst (insertRowScattered unorderedVector unorderedVectorEmpty [] (+) [(2, 5), (0, 7)])
       \<noteq> insertRowSorted unorderedVector unorderedVectorEmpty [] [(2, 5), (0, 7)]"
proof -
  let ?a = "insertRowSorted unorderedVector unorderedVectorEmpty [] [(2, 5), (0, 7)]"
  let ?b = "insertRowScattered unorderedVector unorderedVectorEmpty [] (+) [(2, 5), (0, 7)]"
  have a: "map_option (\<lambda>d. (occupied d (CrdMemRef 0), occupied d ValMemRef)) ?a
             = Some ([0, 2], [7, 5])" by code_simp
  have b: "map_option (\<lambda>r. (occupied (fst r) (CrdMemRef 0), occupied (fst r) ValMemRef)) ?b
             = Some ([2, 0], [5, 7])" by code_simp
  have c: "map_option (\<lambda>r. (occupied (fst r) (CrdMemRef 0), occupied (fst r) ValMemRef)) ?b
      = map_option (\<lambda>d. (occupied d (CrdMemRef 0), occupied d ValMemRef)) (map_option fst ?b)"
    by (simp add: option.map_comp comp_def)
  have "map_option fst ?b \<noteq> ?a"
  proof
    assume e: "map_option fst ?b = ?a"
    have "Some ([2 :: nat, 0], [5 :: nat, 7]) = Some ([0, 2], [7, 5])"
      unfolding a[symmetric] b[symmetric] c e ..
    then show False by simp
  qed
  with a b show ?thesis by simp
qed

subsection \<open>Packing and unpacking\<close>




subsection \<open>Conversion\<close>

text \<open>
  C8. Conversion to a type that is no slice: when the encodings of source and target
  agree up to the bit widths, it returns a storage instance with the specifier of the
  source in which every buffer of the layout holds the content of the source buffer,
  as it is when the element types of the two buffers agree and cast entry by entry when
  they differ; when the level types of the two types differ, it refuses with a match
  failure and produces no buffers.
\<close>

theorem convert_same_structure_or_refuse:
  assumes "\<not> isSlice dstTp"
  shows "(withoutBitWidths (getEncoding dstTp) = withoutBitWidths (getEncoding srcTp)
            \<and> \<not> isSlice srcTp \<longrightarrow>
          (\<exists>dstDesc. convertOp srcTp dstTp genCast srcDesc = Inr dstDesc
             \<and> lvlSize dstDesc = lvlSize srcDesc \<and> memSize dstDesc = memSize srcDesc
             \<and> (\<forall>f \<in> set (foreachFieldInSparseTensor dstTp).
                   memRef dstDesc f =
                     (if fieldType dstTp f = fieldType srcTp f then memRef srcDesc f
                      else map (genCast (fieldType srcTp f) (fieldType dstTp f))
                             (memRef srcDesc f)))))
       \<and> (lvlTypes dstTp \<noteq> lvlTypes srcTp \<longrightarrow>
            convertOp srcTp dstTp genCast srcDesc = Inl MatchFailure)"
proof (intro conjI impI)
  assume a: "withoutBitWidths (getEncoding dstTp) = withoutBitWidths (getEncoding srcTp)
            \<and> \<not> isSlice srcTp"
  show "\<exists>dstDesc. convertOp srcTp dstTp genCast srcDesc = Inr dstDesc
             \<and> lvlSize dstDesc = lvlSize srcDesc \<and> memSize dstDesc = memSize srcDesc
             \<and> (\<forall>f \<in> set (foreachFieldInSparseTensor dstTp).
                   memRef dstDesc f =
                     (if fieldType dstTp f = fieldType srcTp f then memRef srcDesc f
                      else map (genCast (fieldType srcTp f) (fieldType dstTp f))
                             (memRef srcDesc f)))"
  proof (cases "elementType dstTp = elementType srcTp \<and> getEncoding dstTp = getEncoding srcTp")
    case True
    then have "fieldType dstTp f = fieldType srcTp f" for f
      by (cases f) (auto simp: fieldType_def getEncoding_def)
    with True a assms show ?thesis by (simp add: convertOp_def)
  next
    case False
    then have "\<not> (elementType dstTp = elementType srcTp \<and> getEncoding dstTp = getEncoding srcTp)" .
    moreover
    from convertFields_eq[of srcTp dstTp genCast srcDesc "foreachFieldInSparseTensor dstTp"
        "\<lparr>lvlSize = lvlSize srcDesc, memSize = memSize srcDesc, memRef = (\<lambda>f. [])\<rparr>"]
    obtain d' where "convertFields srcTp dstTp genCast srcDesc (foreachFieldInSparseTensor dstTp)
        \<lparr>lvlSize = lvlSize srcDesc, memSize = memSize srcDesc, memRef = (\<lambda>f. [])\<rparr> = Some d'"
      "lvlSize d' = lvlSize srcDesc" "memSize d' = memSize srcDesc"
      "\<And>f. f \<in> set (foreachFieldInSparseTensor dstTp) \<Longrightarrow> memRef d' f =
            (if fieldType dstTp f = fieldType srcTp f then memRef srcDesc f
             else map (genCast (fieldType srcTp f) (fieldType dstTp f)) (memRef srcDesc f))"
      by auto
    ultimately show ?thesis using a assms
      by (simp add: convertOp_def del: de_Morgan_conj)
  qed
next
  assume "lvlTypes dstTp \<noteq> lvlTypes srcTp"
  then have "withoutBitWidths (getEncoding dstTp) \<noteq> withoutBitWidths (getEncoding srcTp)"
    by (simp add: getEncoding_def)
  with assms show "convertOp srcTp dstTp genCast srcDesc = Inl MatchFailure"
    by (simp add: convertOp_def)
qed


text \<open>
  The 3 by 3 matrix converted to positions of 8 bits: the positions are cast, the
  coordinates and the values are copied. A conversion to the coordinate-list scheme is
  refused.
\<close>

theorem convert_same_structure_or_refuse_witness:
  "\<not> isSlice matrix33Narrow \<and> \<not> isSlice cooMatrix
   \<and> withoutBitWidths (getEncoding matrix33Narrow) = withoutBitWidths (getEncoding matrix33)
   \<and> \<not> isSlice matrix33
   \<and> lvlTypes cooMatrix \<noteq> lvlTypes matrix33
   \<and> (\<exists>dstDesc. convertOp matrix33 matrix33Narrow truncCast matrix33Once = Inr dstDesc
         \<and> memRef dstDesc (PosMemRef 1)
             = map (truncCast 64 8) (memRef matrix33Once (PosMemRef 1))
         \<and> memRef dstDesc (CrdMemRef 1) = memRef matrix33Once (CrdMemRef 1)
         \<and> memRef dstDesc ValMemRef = memRef matrix33Once ValMemRef)
   \<and> convertOp matrix33 cooMatrix truncCast matrix33Once = Inl MatchFailure"
proof -
  have h1: "\<not> isSlice matrix33Narrow" "\<not> isSlice cooMatrix" "\<not> isSlice matrix33"
    by code_simp+
  have h2: "withoutBitWidths (getEncoding matrix33Narrow) = withoutBitWidths (getEncoding matrix33)"
    by code_simp
  have h3: "lvlTypes cooMatrix \<noteq> lvlTypes matrix33" by code_simp
  have f: "PosMemRef 1 \<in> set (foreachFieldInSparseTensor matrix33Narrow)"
    "CrdMemRef 1 \<in> set (foreachFieldInSparseTensor matrix33Narrow)"
    "ValMemRef \<in> set (foreachFieldInSparseTensor matrix33Narrow)"
    by code_simp+
  have t: "fieldType matrix33Narrow (PosMemRef 1) = 8" "fieldType matrix33 (PosMemRef 1) = 64"
    "fieldType matrix33Narrow (CrdMemRef 1) = fieldType matrix33 (CrdMemRef 1)"
    "fieldType matrix33Narrow ValMemRef = fieldType matrix33 ValMemRef"
    by code_simp+
  from convert_same_structure_or_refuse[OF h1(1), of matrix33 truncCast matrix33Once] h1(3) h2
  obtain dstDesc where d: "convertOp matrix33 matrix33Narrow truncCast matrix33Once = Inr dstDesc"
    "\<forall>f \<in> set (foreachFieldInSparseTensor matrix33Narrow).
        memRef dstDesc f =
          (if fieldType matrix33Narrow f = fieldType matrix33 f then memRef matrix33Once f
           else map (truncCast (fieldType matrix33 f) (fieldType matrix33Narrow f))
                  (memRef matrix33Once f))"
    by blast
  from d(2) f t have
    "memRef dstDesc (PosMemRef 1) = map (truncCast 64 8) (memRef matrix33Once (PosMemRef 1))"
    "memRef dstDesc (CrdMemRef 1) = memRef matrix33Once (CrdMemRef 1)"
    "memRef dstDesc ValMemRef = memRef matrix33Once ValMemRef"
    by auto
  moreover
  from convert_same_structure_or_refuse[OF h1(2), of matrix33 truncCast matrix33Once] h3
  have "convertOp matrix33 cooMatrix truncCast matrix33Once = Inl MatchFailure" by blast
  ultimately show ?thesis using h1 h2 h3 d(1) by blast
qed

subsection \<open>Inserting a tuple that is present\<close>

text \<open>
  C2, as amended. On a scheme without a merged coordinate buffer, all of whose levels
  are dense or compressed and unique and whose last level is compressed: take the
  storage that allocation and any sequence of insertions give (in any order, each tuple
  within the sizes of the dense levels), and insert a coordinate tuple into it. A
  second insertion of the same tuple then returns and leaves every position and
  coordinate buffer and its occupied length as it is, so the tuple is not stored twice;
  but it appends its value to the value array, whose occupied length grows by one.
  The coordinates inserted and the numbers of coordinates stored are taken to fit the
  coordinate and the position width, so that every value stored is the value computed.
\<close>

theorem reinsert_keeps_structure_appends_value:
  assumes "denseOrUniqueCompressed stt"
    and "isCompressedLvl stt (getLvlRank stt - 1)"
    and "getLvlRank stt \<le> cooStart stt"
    and "createAllocFields stt dynSizes sizeHint = Some desc0"
    and "insertAll stt desc0 ops = Some desc"
    and "list_all (\<lambda>cv. inBounds stt desc0 (fst cv) \<and> coordsFit stt (fst cv)) ops"
    and "inBounds stt desc0 coords" and "coordsFit stt coords"
    and "genImplementation stt desc coords val1 = Some desc1"
    and "countsFit stt desc1"
  shows "\<exists>desc2. genImplementation stt desc1 coords val2 = Some desc2
       \<and> lvlSize desc2 = lvlSize desc1
       \<and> (\<forall>l. memRef desc2 (PosMemRef l) = memRef desc1 (PosMemRef l)
              \<and> memSize desc2 (PosMemRef l) = memSize desc1 (PosMemRef l)
              \<and> memRef desc2 (CrdMemRef l) = memRef desc1 (CrdMemRef l)
              \<and> memSize desc2 (CrdMemRef l) = memSize desc1 (CrdMemRef l))
       \<and> memSize desc2 ValMemRef = memSize desc1 ValMemRef + 1
       \<and> occupied desc2 ValMemRef = occupied desc1 ValMemRef @ [val2]"
proof -
  note sch = assms(1) and na = assms(3)
  from assms(6) have ibs: "list_all (\<lambda>cv. inBounds stt desc0 (fst cv)) ops"
    by (simp add: list_all_iff)
  from insertAll_ready[OF assms(5) na sch ibs alloc_ready[OF assms(4) na sch]]
  have rd: "posReady stt desc" and lv0: "lvlSize desc = lvlSize desc0" by simp_all
  from assms(7) have ib: "inBounds stt desc coords" by (simp add: inBounds_cong[OF lv0])
  from assms(2) have nd: "\<not> isDenseLvl stt (getLvlRank stt - 1)"
    by (simp add: isCompressedLvl_def isDenseLvl_def isCompressedDLT_def isDenseDLT_def)
  from assms(9) nd obtain e p where rk: "0 < getLvlRank stt" "length coords = getLvlRank stt"
    and g: "genLevels stt coords 0 0 desc = Some (e, p)"
    and r: "desc1 = createPushback stt e ValMemRef val1 1"
    by (auto simp: genImplementation_def split: if_splits option.splits)
  have ag: "\<forall>k\<ge>0. memRef desc1 (PosMemRef k) = memRef e (PosMemRef k)
         \<and> memRef desc1 (CrdMemRef k) = memRef e (CrdMemRef k)
         \<and> memSize desc1 (CrdMemRef k) = memSize e (CrdMemRef k)"
    by (simp add: r createPushback_memRef_other createPushback_memSize)
  have lv: "lvlSize desc1 = lvlSize e" by (simp add: r)
  have p0: "0 < numParents stt desc 0" by simp
  from genLevels_replay[OF g na sch ib rd p0 lv ag]
  have g2: "genLevels stt coords 0 0 desc1 = Some (desc1, p)" .
  let ?d2 = "createPushback stt desc1 ValMemRef val2 1"
  from g2 rk nd have i2: "genImplementation stt desc1 coords val2 = Some ?d2"
    by (simp add: genImplementation_def)
  have cap: "memSize desc1 (getMemRefFieldIndex stt ValMemRef)
               \<le> length (memRef desc1 (getMemRefFieldIndex stt ValMemRef))"
    using push_back_length_ge[of "memSize e ValMemRef" 1 "memRef e ValMemRef" val1]
          createPushback_memRef_same[of stt e ValMemRef val1 1]
    by (simp add: r createPushback_memSize)
  from createPushback_occupied[OF cap, of val2 1]
  have oc: "occupied ?d2 ValMemRef = occupied desc1 ValMemRef @ [val2]" by simp
  show ?thesis
    using i2 oc by (simp add: createPushback_memRef_other createPushback_memSize)
qed

text \<open>
  The theorem on the matrix of the concrete scenario: after the insertion of 3 at (0,0)
  into the fresh matrix, 1 is inserted at (0,2), and then 7 at (0,2) once more.
\<close>

theorem reinsert_keeps_structure_appends_value_witness:
  "denseOrUniqueCompressed matrix33
   \<and> isCompressedLvl matrix33 (getLvlRank matrix33 - 1)
   \<and> getLvlRank matrix33 \<le> cooStart matrix33
   \<and> createAllocFields matrix33 [] None = Some matrix33Empty
   \<and> insertAll matrix33 matrix33Empty [([0, 0], 3)] \<noteq> None
   \<and> list_all (\<lambda>cv. inBounds matrix33 matrix33Empty (fst cv) \<and> coordsFit matrix33 (fst cv))
        [([0, 0], 3 :: nat)]
   \<and> inBounds matrix33 matrix33Empty [0, 2] \<and> coordsFit matrix33 [0, 2]
   \<and> genImplementation matrix33 (the (insertAll matrix33 matrix33Empty [([0, 0], 3)])) [0, 2] 1
        \<noteq> None
   \<and> countsFit matrix33
        (the (genImplementation matrix33
                (the (insertAll matrix33 matrix33Empty [([0, 0], 3)])) [0, 2] 1))
   \<and> (\<exists>desc2. genImplementation matrix33
          (the (genImplementation matrix33
                  (the (insertAll matrix33 matrix33Empty [([0, 0], 3)])) [0, 2] 1)) [0, 2] 7
            = Some desc2
       \<and> occupied desc2 (PosMemRef 1) = [0, 2, 0, 0]
       \<and> occupied desc2 (CrdMemRef 1) = [0, 2]
       \<and> occupied desc2 ValMemRef = [3, 1, 7])"
proof -
  let ?ops = "[([0, 0], 3 :: nat)]"
  let ?desc = "the (insertAll matrix33 matrix33Empty ?ops)"
  let ?desc1 = "the (genImplementation matrix33 ?desc [0, 2] 1)"
  have h1: "denseOrUniqueCompressed matrix33" by code_simp
  have h2: "isCompressedLvl matrix33 (getLvlRank matrix33 - 1)" by code_simp
  have h3: "getLvlRank matrix33 \<le> cooStart matrix33" by code_simp
  have "case createAllocFields matrix33 [] None of None \<Rightarrow> False | Some d \<Rightarrow> True" by code_simp
  from case_option_SomeE[OF this]
  have h4: "createAllocFields matrix33 [] None = Some matrix33Empty"
    unfolding matrix33Empty_def by auto
  have "case insertAll matrix33 matrix33Empty ?ops of None \<Rightarrow> False | Some d \<Rightarrow> True"
    by code_simp
  from case_option_SomeE[OF this]
  have h5n: "insertAll matrix33 matrix33Empty ?ops \<noteq> None" by blast
  then have h5: "insertAll matrix33 matrix33Empty ?ops = Some ?desc"
    by (rule option.collapse[symmetric])
  have w: "crdWidth matrix33 = 64" "posWidth matrix33 = 64" by (simp_all add: matrix33_def)
  have rk: "[0 ..< getLvlRank matrix33] = [0, 1]"
    by (simp add: getLvlRank_def matrix33_def upt_rec)
  have ib: "list_all (\<lambda>cv. inBounds matrix33 matrix33Empty (fst cv)) ?ops" by code_simp
  have cf: "list_all (\<lambda>cv. coordsFit matrix33 (fst cv)) ?ops"
    by (simp add: coordsFit_def rk w fitsWidth_def)
  from ib cf have h6: "list_all (\<lambda>cv. inBounds matrix33 matrix33Empty (fst cv)
      \<and> coordsFit matrix33 (fst cv)) ?ops" by simp
  have h7: "inBounds matrix33 matrix33Empty [0, 2]" by code_simp
  have h8: "coordsFit matrix33 [0, 2]" by (simp add: coordsFit_def rk w fitsWidth_def)
  have "case genImplementation matrix33 ?desc [0, 2] 1 of None \<Rightarrow> False | Some d \<Rightarrow> True"
    by code_simp
  from case_option_SomeE[OF this]
  have h9n: "genImplementation matrix33 ?desc [0, 2] 1 \<noteq> None" by blast
  then have h9: "genImplementation matrix33 ?desc [0, 2] 1 = Some ?desc1"
    by (rule option.collapse[symmetric])
  have n0: "crdMemSizeAtLvl matrix33 ?desc1 0 \<le> 2"
    and n1: "crdMemSizeAtLvl matrix33 ?desc1 1 \<le> 2"
    by code_simp+
  have h10: "countsFit matrix33 ?desc1"
    using n0 n1 by (simp add: countsFit_def rk w fitsWidth_def)
  have o: "occupied ?desc1 (PosMemRef 1) = [0, 2, 0, 0]"
    "occupied ?desc1 (CrdMemRef 1) = [0, 2]"
    "occupied ?desc1 ValMemRef = [3, 1]" by code_simp+
  from reinsert_keeps_structure_appends_value[OF h1 h2 h3 h4 h5 h6 h7 h8 h9 h10, of 7]
  obtain desc2 where d2: "genImplementation matrix33 ?desc1 [0, 2] 7 = Some desc2"
    and e1: "memRef desc2 (PosMemRef 1) = memRef ?desc1 (PosMemRef 1)"
       "memSize desc2 (PosMemRef 1) = memSize ?desc1 (PosMemRef 1)"
       "memRef desc2 (CrdMemRef 1) = memRef ?desc1 (CrdMemRef 1)"
       "memSize desc2 (CrdMemRef 1) = memSize ?desc1 (CrdMemRef 1)"
    and e2: "occupied desc2 ValMemRef = occupied ?desc1 ValMemRef @ [7]"
    by blast
  from e1 have "occupied desc2 (PosMemRef 1) = occupied ?desc1 (PosMemRef 1)"
    "occupied desc2 (CrdMemRef 1) = occupied ?desc1 (CrdMemRef 1)"
    by (simp_all add: occupied_def)
  with o e2 have "occupied desc2 (PosMemRef 1) = [0, 2, 0, 0]
       \<and> occupied desc2 (CrdMemRef 1) = [0, 2]
       \<and> occupied desc2 ValMemRef = [3, 1, 7]" by simp
  with d2 h1 h2 h3 h4 h5n h6 h7 h8 h9n h10 show ?thesis by blast
qed

text \<open>
  The claim as stated asks for the same number of entries in every buffer after the
  second insertion, and for the value to be overwritten. On the matrix of the concrete
  scenario, whose last level is compressed and unique, the second insertion of (0,0)
  lets the value array grow from [1] to [1, 7].
\<close>

theorem reinsert_grows_values_counterexample:
  "isCompressedLvl matrix33 (getLvlRank matrix33 - 1)
   \<and> isUniqueLvl matrix33 (getLvlRank matrix33 - 1)
   \<and> (\<exists>desc0 desc1 desc2.
        createAllocFields matrix33 [] None = Some desc0
      \<and> genImplementation matrix33 desc0 [0, 0] 1 = Some desc1
      \<and> genImplementation matrix33 desc1 [0, 0] 7 = Some desc2
      \<and> occupied desc1 ValMemRef = [1]
      \<and> occupied desc2 ValMemRef = [1, 7]
      \<and> memSize desc1 ValMemRef = 1
      \<and> memSize desc2 ValMemRef = 2)"
proof -
  have h1: "isCompressedLvl matrix33 (getLvlRank matrix33 - 1)"
    and h2: "isUniqueLvl matrix33 (getLvlRank matrix33 - 1)" by code_simp+
  have "case createAllocFields matrix33 [] None of None \<Rightarrow> False | Some desc0 \<Rightarrow>
        (case genImplementation matrix33 desc0 [0, 0] 1 of None \<Rightarrow> False | Some desc1 \<Rightarrow>
        (case genImplementation matrix33 desc1 [0, 0] 7 of None \<Rightarrow> False | Some desc2 \<Rightarrow>
           occupied desc1 ValMemRef = [1]
         \<and> occupied desc2 ValMemRef = [1, 7]
         \<and> memSize desc1 ValMemRef = 1
         \<and> memSize desc2 ValMemRef = 2))"
    by code_simp
  then have "\<exists>desc0 desc1 desc2.
        createAllocFields matrix33 [] None = Some desc0
      \<and> genImplementation matrix33 desc0 [0, 0] 1 = Some desc1
      \<and> genImplementation matrix33 desc1 [0, 0] 7 = Some desc2
      \<and> occupied desc1 ValMemRef = [1]
      \<and> occupied desc2 ValMemRef = [1, 7]
      \<and> memSize desc1 ValMemRef = 1
      \<and> memSize desc2 ValMemRef = 2"
    by (auto split: option.splits)
  with h1 h2 show ?thesis by blast
qed

subsection \<open>Position arrays after finalization\<close>

text \<open>
  C5, as amended. On a scheme without hi/lo levels (and with only singleton levels
  after the level from which coordinates are merged): after allocation and any sequence
  of insertions that returns, with coordinate tuples in lexicographic order and within
  the sizes of the dense levels, finalization returns, and for every compressed level
  that has no singleton level above it the occupied part of the position array does not
  decrease from its first to its last slot and its length is the number of parent
  positions plus one. The coordinates inserted and the numbers of coordinates stored are
  taken to fit the coordinate and the position width; every occupied position then fits
  the position width too, so that it is stored as computed.
\<close>

theorem positions_sorted_after_finalize:
  assumes "posLayout stt"
    and "createAllocFields stt dynSizes sizeHint = Some desc0"
    and "insertAll stt desc0 ops = Some desc1"
    and "sorted_wrt lexLe (map fst ops)"
    and "list_all (\<lambda>cv. inBounds stt desc0 (fst cv) \<and> coordsFit stt (fst cv)) ops"
    and "countsFit stt desc1"
    and "l < tracked stt" and "isCompressedLvl stt l"
  shows "\<exists>desc2. genEndInsert stt desc1 = Some desc2
       \<and> sorted (occupied desc2 (PosMemRef l))
       \<and> length (occupied desc2 (PosMemRef l)) = numParents stt desc2 l + 1
       \<and> list_all (fitsWidth (posWidth stt)) (occupied desc2 (PosMemRef l))"
proof -
  note i0 = createAllocFields_insInv[OF assms(2,1)]
  from assms(5) have ib: "list_all (\<lambda>cv. inBounds stt desc0 (fst cv)) ops"
    by (simp add: list_all_iff)
  from insertAll_insInv[OF assms(3,1) i0 assms(4) _ ib]
  obtain K lc where i1: "insInv stt desc1 K lc" by auto
  from assms(1) have nh: "list_all (\<lambda>dlt. \<not> isCompressedWithHiDLT dlt) (lvlTypes stt)"
    by (simp add: posLayout_def)
  have "canFinalize stt desc1"
  proof (rule posCap_canFinalize[OF nh])
    fix j assume "j < getLvlRank stt" "isCompressedLvl stt j"
    from posCap_insertAll[OF assms(3) posCap_alloc[OF assms(2) this]]
    show "posCap desc1 j" .
  qed
  from genEndInsert_canFinalize[OF this] insInv_finalized[OF i1 assms(7,8)]
    insInv_finalized_fit[OF i1 assms(7,8,6)]
  show ?thesis by simp
qed

text \<open>
  The theorem on the concrete scenario: the three insertions into the 3 by 3 matrix, and
  its compressed level 1.
\<close>

theorem positions_sorted_after_finalize_witness:
  "posLayout matrix33
   \<and> createAllocFields matrix33 [] None = Some matrix33Empty
   \<and> insertAll matrix33 matrix33Empty [([0, 0], 1), ([0, 2], 2), ([2, 1], 3)] \<noteq> None
   \<and> sorted_wrt lexLe (map fst [([0, 0], 1 :: nat), ([0, 2], 2), ([2, 1], 3)])
   \<and> list_all (\<lambda>cv. inBounds matrix33 matrix33Empty (fst cv) \<and> coordsFit matrix33 (fst cv))
        [([0, 0], 1 :: nat), ([0, 2], 2), ([2, 1], 3)]
   \<and> countsFit matrix33
        (the (insertAll matrix33 matrix33Empty [([0, 0], 1), ([0, 2], 2), ([2, 1], 3)]))
   \<and> 1 < tracked matrix33
   \<and> isCompressedLvl matrix33 1
   \<and> (\<exists>desc2. genEndInsert matrix33
          (the (insertAll matrix33 matrix33Empty [([0, 0], 1), ([0, 2], 2), ([2, 1], 3)]))
            = Some desc2
        \<and> sorted (occupied desc2 (PosMemRef 1))
        \<and> length (occupied desc2 (PosMemRef 1)) = numParents matrix33 desc2 1 + 1
        \<and> list_all (fitsWidth (posWidth matrix33)) (occupied desc2 (PosMemRef 1)))"
proof -
  let ?ops = "[([0, 0], 1 :: nat), ([0, 2], 2), ([2, 1], 3)]"
  have h1: "posLayout matrix33" by code_simp
  have "case createAllocFields matrix33 [] None of None \<Rightarrow> False | Some d \<Rightarrow> True" by code_simp
  from case_option_SomeE[OF this]
  have h2: "createAllocFields matrix33 [] None = Some matrix33Empty"
    unfolding matrix33Empty_def by auto
  have "case insertAll matrix33 matrix33Empty ?ops of None \<Rightarrow> False | Some d \<Rightarrow> True"
    by code_simp
  from case_option_SomeE[OF this]
  have h3n: "insertAll matrix33 matrix33Empty ?ops \<noteq> None" by blast
  then have h3: "insertAll matrix33 matrix33Empty ?ops
      = Some (the (insertAll matrix33 matrix33Empty ?ops))"
    by (rule option.collapse[symmetric])
  have h4: "sorted_wrt lexLe (map fst ?ops)" by simp
  have ib: "list_all (\<lambda>cv. inBounds matrix33 matrix33Empty (fst cv)) ?ops" by code_simp
  have w: "crdWidth matrix33 = 64" "posWidth matrix33 = 64" by (simp_all add: matrix33_def)
  have rk: "[0 ..< getLvlRank matrix33] = [0, 1]"
    by (simp add: getLvlRank_def matrix33_def upt_rec)
  have cf: "list_all (\<lambda>cv. coordsFit matrix33 (fst cv)) ?ops"
    by (simp add: coordsFit_def rk w fitsWidth_def)
  from ib cf have h5: "list_all (\<lambda>cv. inBounds matrix33 matrix33Empty (fst cv)
      \<and> coordsFit matrix33 (fst cv)) ?ops" by simp
  have n0: "crdMemSizeAtLvl matrix33 (the (insertAll matrix33 matrix33Empty ?ops)) 0 \<le> 3"
    and n1: "crdMemSizeAtLvl matrix33 (the (insertAll matrix33 matrix33Empty ?ops)) 1 \<le> 3"
    by code_simp+
  have h6: "countsFit matrix33 (the (insertAll matrix33 matrix33Empty ?ops))"
    using n0 n1 by (simp add: countsFit_def rk w fitsWidth_def)
  have h7: "1 < tracked matrix33" and h8: "isCompressedLvl matrix33 1" by code_simp+
  from positions_sorted_after_finalize[OF h1 h2 h3 h4 h5 h6 h7 h8] h1 h2 h3n h4 h5 h6 h7 h8
  show ?thesis by blast
qed

text \<open>
  The claim as stated covers every compressed level. On a scheme with a compressed level
  below a singleton level, the scheme loop reserves no position at the compressed level
  (it stops at the singleton level, and insertion at a compressed level never appends to
  its position buffer): after two ordered insertions and finalization the level above
  holds two coordinates and one parent position, and the occupied part of the position
  array of the compressed level is the single entry it was allocated with.
\<close>

theorem compressed_below_singleton_counterexample:
  "isCompressedLvl singletonCompressed 1
   \<and> sorted_wrt lexLe (map fst [([0, 0], 1 :: nat), ([1, 1], 2)])
   \<and> (\<exists>desc0 desc1 desc2.
        createAllocFields singletonCompressed [] None = Some desc0
      \<and> insertAll singletonCompressed desc0 [([0, 0], 1), ([1, 1], 2)] = Some desc1
      \<and> genEndInsert singletonCompressed desc1 = Some desc2
      \<and> occupied desc2 (CrdMemRef 0) = [0, 1]
      \<and> numParents singletonCompressed desc2 1 = 1
      \<and> occupied desc2 (PosMemRef 1) = [0])"
proof -
  have h1: "isCompressedLvl singletonCompressed 1" by code_simp
  have h2: "sorted_wrt lexLe (map fst [([0, 0], 1 :: nat), ([1, 1], 2)])" by simp
  have "case createAllocFields singletonCompressed [] None of None \<Rightarrow> False | Some desc0 \<Rightarrow>
        (case insertAll singletonCompressed desc0 [([0, 0], 1), ([1, 1], 2)] of
           None \<Rightarrow> False | Some desc1 \<Rightarrow>
        (case genEndInsert singletonCompressed desc1 of None \<Rightarrow> False | Some desc2 \<Rightarrow>
           occupied desc2 (CrdMemRef 0) = [0, 1]
         \<and> numParents singletonCompressed desc2 1 = 1
         \<and> occupied desc2 (PosMemRef 1) = [0]))"
    by code_simp
  from case_option_SomeE[OF this] obtain desc0 where
    a: "createAllocFields singletonCompressed [] None = Some desc0"
    and b: "case insertAll singletonCompressed desc0 [([0, 0], 1), ([1, 1], 2)] of
           None \<Rightarrow> False | Some desc1 \<Rightarrow>
        (case genEndInsert singletonCompressed desc1 of None \<Rightarrow> False | Some desc2 \<Rightarrow>
           occupied desc2 (CrdMemRef 0) = [0, 1]
         \<and> numParents singletonCompressed desc2 1 = 1
         \<and> occupied desc2 (PosMemRef 1) = [0])"
    by blast
  from case_option_SomeE[OF b] obtain desc1 where
    c: "insertAll singletonCompressed desc0 [([0, 0], 1), ([1, 1], 2)] = Some desc1"
    and d: "case genEndInsert singletonCompressed desc1 of None \<Rightarrow> False | Some desc2 \<Rightarrow>
           occupied desc2 (CrdMemRef 0) = [0, 1]
         \<and> numParents singletonCompressed desc2 1 = 1
         \<and> occupied desc2 (PosMemRef 1) = [0]"
    by blast
  from case_option_SomeE[OF d] a c
  have "\<exists>desc0 desc1 desc2.
        createAllocFields singletonCompressed [] None = Some desc0
      \<and> insertAll singletonCompressed desc0 [([0, 0], 1), ([1, 1], 2)] = Some desc1
      \<and> genEndInsert singletonCompressed desc1 = Some desc2
      \<and> occupied desc2 (CrdMemRef 0) = [0, 1]
      \<and> numParents singletonCompressed desc2 1 = 1
      \<and> occupied desc2 (PosMemRef 1) = [0]"
    by blast
  with h1 h2 show ?thesis by blast
qed

text \<open>
  Further below a singleton level the order can fail as well. On the scheme of a
  singleton, a dense and two compressed levels, three ordered insertions within the
  bounds leave, after finalization, the occupied positions 0, 3, 2 at the last level.
  (The compressed level above it is read beyond the occupied part of its position
  buffer, whose cells hold zero here.)
\<close>

lemma positions_below_singleton_unsorted:
  "posLayout singletonDenseCompressed
   \<and> isCompressedLvl singletonDenseCompressed 3
   \<and> tracked singletonDenseCompressed = 0
   \<and> sorted_wrt lexLe (map fst [([0, 0, 5, 0], 1 :: nat), ([0, 1, 6, 0], 2), ([1, 0, 5, 1], 3)])
   \<and> (\<exists>desc0 desc1 desc2.
        createAllocFields singletonDenseCompressed [] None = Some desc0
      \<and> list_all (\<lambda>cv. inBounds singletonDenseCompressed desc0 (fst cv))
           [([0, 0, 5, 0], 1 :: nat), ([0, 1, 6, 0], 2), ([1, 0, 5, 1], 3)]
      \<and> insertAll singletonDenseCompressed desc0
           [([0, 0, 5, 0], 1), ([0, 1, 6, 0], 2), ([1, 0, 5, 1], 3)] = Some desc1
      \<and> genEndInsert singletonDenseCompressed desc1 = Some desc2
      \<and> occupied desc2 (PosMemRef 3) = [0, 3, 2])"
proof -
  let ?ops = "[([0, 0, 5, 0], 1 :: nat), ([0, 1, 6, 0], 2), ([1, 0, 5, 1], 3)]"
  have h1: "posLayout singletonDenseCompressed"
    and h2: "isCompressedLvl singletonDenseCompressed 3"
    and h3: "tracked singletonDenseCompressed = 0" by code_simp+
  have h4: "sorted_wrt lexLe (map fst ?ops)" by simp
  have "case createAllocFields singletonDenseCompressed [] None of None \<Rightarrow> False | Some desc0 \<Rightarrow>
        list_all (\<lambda>cv. inBounds singletonDenseCompressed desc0 (fst cv)) ?ops \<and>
        (case insertAll singletonDenseCompressed desc0 ?ops of
           None \<Rightarrow> False | Some desc1 \<Rightarrow>
        (case genEndInsert singletonDenseCompressed desc1 of None \<Rightarrow> False | Some desc2 \<Rightarrow>
           occupied desc2 (PosMemRef 3) = [0, 3, 2]))"
    by code_simp
  from case_option_SomeE[OF this] obtain desc0 where
    a: "createAllocFields singletonDenseCompressed [] None = Some desc0"
    and ib: "list_all (\<lambda>cv. inBounds singletonDenseCompressed desc0 (fst cv)) ?ops"
    and b: "case insertAll singletonDenseCompressed desc0 ?ops of
           None \<Rightarrow> False | Some desc1 \<Rightarrow>
        (case genEndInsert singletonDenseCompressed desc1 of None \<Rightarrow> False | Some desc2 \<Rightarrow>
           occupied desc2 (PosMemRef 3) = [0, 3, 2])"
    by blast
  from case_option_SomeE[OF b] obtain desc1 where
    c: "insertAll singletonDenseCompressed desc0 ?ops = Some desc1"
    and d: "case genEndInsert singletonDenseCompressed desc1 of None \<Rightarrow> False | Some desc2 \<Rightarrow>
           occupied desc2 (PosMemRef 3) = [0, 3, 2]"
    by blast
  from case_option_SomeE[OF d] a ib c
  have "\<exists>desc0 desc1 desc2.
        createAllocFields singletonDenseCompressed [] None = Some desc0
      \<and> list_all (\<lambda>cv. inBounds singletonDenseCompressed desc0 (fst cv)) ?ops
      \<and> insertAll singletonDenseCompressed desc0 ?ops = Some desc1
      \<and> genEndInsert singletonDenseCompressed desc1 = Some desc2
      \<and> occupied desc2 (PosMemRef 3) = [0, 3, 2]"
    by blast
  with h1 h2 h3 h4 show ?thesis by blast
qed


end
